theory Spec2Isabelle
  imports Main "HOL-Library.Log_Nat" "HOL-Library.Multiset"
begin

section \<open>dstat: file-type statistics of a directory tree\<close>

text \<open>
  A shallow embedding of \<^verbatim>\<open>main.go\<close>. Go's \<^verbatim>\<open>int\<close> and \<^verbatim>\<open>int64\<close> are modelled by
  \<^typ>\<open>int\<close>, \<^verbatim>\<open>int\<close> taken 64 bits wide. The additions of the walk (\<open>visit\<close>) are written
  without wrap-around: they are the code's as long as the sizes of the files counted sum
  to less than \<open>2 ^ 63\<close>. The addition to \<^verbatim>\<open>other\<close> in \<^verbatim>\<open>aggregateStats\<close>, whose arguments
  are arbitrary maps and totals here, wraps as Go's does (\<open>wrap64\<close>). Go strings are byte
  strings (\<^typ>\<open>string\<close>); \<^verbatim>\<open>fmt\<close> pads them by runes (\<open>runeCount\<close>).
  A \<^verbatim>\<open>float64\<close> is modelled by the rational number it denotes, every operation rounding
  its exact result to the nearest double (ties to even), none fused with another. The
  functions of Go's library that the program calls (\<^verbatim>\<open>filepath.WalkDir\<close>, \<^verbatim>\<open>filepath.Ext\<close>,
  \<^verbatim>\<open>sort.Slice\<close>, \<^verbatim>\<open>strconv.ParseInt\<close>, \<^verbatim>\<open>strings\<close>, the verbs of \<^verbatim>\<open>fmt\<close>) are modelled
  after the library.
\<close>

subsection \<open>Data model\<close>

text \<open>The struct \<^verbatim>\<open>Config\<close>; the two \<^verbatim>\<open>map[string]struct{}\<close> fields are sets.\<close>

record Config =
  Dir :: string
  Verbose :: bool
  NoBar :: bool
  ShowSize :: bool
  SizeOnly :: bool
  IncludeHidden :: bool
  Human :: bool
  MinSize :: int
  MaxSize :: int
  Exclude :: "string set"
  ExcludeDirs :: "string set"
  BySize :: bool

text \<open>The struct \<^verbatim>\<open>FileStat\<close>.\<close>

record FileStat =
  Ext :: string
  Count :: int
  Size :: int

text \<open>
  A Go \<^verbatim>\<open>map[string]int\<close> is an association list with distinct keys. A missing key
  reads as zero, so \<^verbatim>\<open>m[k] += d\<close> inserts the key when it is absent.
\<close>

type_synonym gomap = "(string \<times> int) list"

fun map_add :: "gomap \<Rightarrow> string \<Rightarrow> int \<Rightarrow> gomap" where
  "map_add [] k d = [(k, d)]"
| "map_add ((k', v) # m) k d = (if k' = k then (k', v + d) # m else (k', v) # map_add m k d)"

subsection \<open>Strings (package strings), on bytes\<close>

definition HasPrefix :: "string \<Rightarrow> string \<Rightarrow> bool" where
  "HasPrefix s p = (take (length p) s = p)"

definition TrimPrefix :: "string \<Rightarrow> string \<Rightarrow> string" where
  "TrimPrefix s p = (if HasPrefix s p then drop (length p) s else s)"

definition Contains :: "string \<Rightarrow> char \<Rightarrow> bool" where
  "Contains s c = (c \<in> set s)"

text \<open>\<^verbatim>\<open>strings.SplitN(s, "=", 2)\<close> on a string that contains the separator.\<close>

definition SplitN2 :: "string \<Rightarrow> char \<Rightarrow> string \<times> string" where
  "SplitN2 s c = (takeWhile (\<lambda>x. x \<noteq> c) s, drop 1 (dropWhile (\<lambda>x. x \<noteq> c) s))"

text \<open>\<^verbatim>\<open>strings.Split(s, ",")\<close>: always at least one field.\<close>

fun Split :: "string \<Rightarrow> char \<Rightarrow> string list" where
  "Split [] c = [[]]"
| "Split (x # s) c =
     (if x = c then [] # Split s c
      else (case Split s c of [] \<Rightarrow> [[x]] | f # fs \<Rightarrow> (x # f) # fs))"

text \<open>
  \<^verbatim>\<open>strings.TrimSpace\<close>, for the ASCII white space (tab, line feed, vertical tab, form
  feed, carriage return, space); the Unicode spaces beyond ASCII are not modelled.
\<close>

definition isSpace :: "char \<Rightarrow> bool" where
  "isSpace c = (c \<in> {CHR 0x09, CHR 0x0A, CHR 0x0B, CHR 0x0C, CHR 0x0D, CHR '' ''})"

definition TrimSpace :: "string \<Rightarrow> string" where
  "TrimSpace s = rev (dropWhile isSpace (rev (dropWhile isSpace s)))"

subsection \<open>Numbers (strconv, float64, fmt)\<close>

datatype strconv_error = ErrSyntax | ErrRange

definition isDigit :: "char \<Rightarrow> bool" where
  "isDigit c = (c \<in> set ''0123456789'')"

definition digitVal :: "char \<Rightarrow> int" where
  "digitVal c = int (of_char c) - 48"

text \<open>
  \<^verbatim>\<open>strconv.ParseUint(s, 10, 64)\<close> on a non-empty string: the bytes are read from the
  left, a byte that is no digit is a syntax error, a value beyond \<open>2^64 - 1\<close> a range
  error, whichever comes first.
\<close>

fun parseUintLoop :: "int \<Rightarrow> string \<Rightarrow> strconv_error + int" where
  "parseUintLoop n [] = Inr n"
| "parseUintLoop n (c # s) =
     (if \<not> isDigit c then Inl ErrSyntax
      else if n * 10 + digitVal c > 2 ^ 64 - 1 then Inl ErrRange
      else parseUintLoop (n * 10 + digitVal c) s)"

text \<open>\<^verbatim>\<open>strconv.ParseInt(s, 10, 64)\<close>.\<close>

definition ParseInt :: "string \<Rightarrow> strconv_error + int" where
  "ParseInt s0 =
     (if s0 = [] then Inl ErrSyntax
      else
        (let neg = (hd s0 = CHR ''-'');
             s = (if hd s0 = CHR ''+'' \<or> hd s0 = CHR ''-'' then tl s0 else s0)
         in if s = [] then Inl ErrSyntax
            else (case parseUintLoop 0 s of
                    Inl ErrSyntax \<Rightarrow> Inl ErrSyntax
                  | Inl ErrRange \<Rightarrow> Inl ErrRange
                  | Inr un \<Rightarrow>
                      if \<not> neg \<and> un \<ge> 2 ^ 63 then Inl ErrRange
                      else if neg \<and> un > 2 ^ 63 then Inl ErrRange
                      else Inr (if neg then - un else un))))"

text \<open>
  The binary exponent \<open>\<lfloor>log\<^sub>2 x\<rfloor>\<close> of a positive rational, from the bit lengths of its
  numerator and denominator.
\<close>

definition ilog2 :: "rat \<Rightarrow> int" where
  "ilog2 x = (case quotient_of x of (p, q) \<Rightarrow>
     (let d = bitlen p - bitlen q in if 2 powi d \<le> x then d else d - 1))"

definition round_half_even :: "rat \<Rightarrow> int" where
  "round_half_even x =
     (let f = \<lfloor>x\<rfloor>; r = x - of_int f
      in if r < 1 / 2 then f else if 1 / 2 < r then f + 1 else if even f then f else f + 1)"

text \<open>
  Rounding an exact result to \<^verbatim>\<open>float64\<close>: 53 significant bits, to nearest, ties to
  even. The exponent range is left unbounded (every value of this program lies between
  \<open>2^-64\<close> and \<open>2^70\<close>, far from overflow and from the subnormal numbers).
\<close>

definition float64 :: "rat \<Rightarrow> rat" where
  "float64 x = (if x = 0 then 0
     else (let u = 2 powi (ilog2 \<bar>x\<bar> - 52) in of_int (round_half_even (x / u)) * u))"

text \<open>The conversion \<^verbatim>\<open>int(f)\<close> of a float: truncation toward zero.\<close>

definition float_to_int :: "rat \<Rightarrow> int" where
  "float_to_int x = (if 0 \<le> x then \<lfloor>x\<rfloor> else \<lceil>x\<rceil>)"

text \<open>Decimal digits of a natural number (\<^verbatim>\<open>%d\<close>).\<close>

fun decimal :: "nat \<Rightarrow> string" where
  "decimal n = (if n < 10 then [''0123456789'' ! n]
                else decimal (n div 10) @ [''0123456789'' ! (n mod 10)])"

definition fmt_d :: "int \<Rightarrow> string" where
  "fmt_d i = (if i < 0 then ''-'' @ decimal (nat (- i)) else decimal (nat i))"

text \<open>
  \<^verbatim>\<open>%.0f\<close> and \<^verbatim>\<open>%.2f\<close>: the exact value of the double, rounded to the given number
  of decimals (ties to even), printed with exactly that many decimals.
\<close>

definition fracDigits :: "nat \<Rightarrow> nat \<Rightarrow> string" where
  "fracDigits prec n = replicate (prec - length (decimal n)) CHR ''0'' @ decimal n"

definition fmt_f :: "nat \<Rightarrow> rat \<Rightarrow> string" where
  "fmt_f prec x =
     (let h = nat (round_half_even (\<bar>x\<bar> * 10 ^ prec))
      in (if x < 0 then ''-'' else '''') @ decimal (h div 10 ^ prec) @
         (if prec = 0 then '''' else ''.'' @ fracDigits prec (h mod 10 ^ prec)))"

text \<open>
  \<^verbatim>\<open>utf8.RuneCountInString\<close>: the number of runes of a byte string. A byte below 0x80 is
  a rune; a leading byte 0xC2..0xF4 followed by the continuation bytes its encoding asks
  for (the second one in the narrower range that excludes overlong forms, surrogates and
  values above U+10FFFF) is one rune of 2, 3 or 4 bytes; any other byte counts as one
  rune (an encoding error) and the scan goes on at the next byte.
\<close>

definition isCont :: "char \<Rightarrow> bool" where
  "isCont c = (0x80 \<le> (of_char c :: nat) \<and> (of_char c :: nat) \<le> 0xBF)"

definition runeSize :: "char \<Rightarrow> string \<Rightarrow> nat" where
  "runeSize c rest =
     (let b = (of_char c :: nat);
          sz = (if b < 0x80 then 1 else if b < 0xC2 then 0 else if b < 0xE0 then 2
                else if b < 0xF0 then 3 else if b < 0xF5 then 4 else 0);
          lo = (if b = 0xE0 then 0xA0 else if b = 0xF0 then 0x90 else 0x80);
          hi = (if b = 0xED then 0x9F else if b = 0xF4 then 0x8F else (0xBF :: nat))
      in if sz \<le> 1 then 1
         else if length rest < sz - 1 then 1
         else if (of_char (rest ! 0) :: nat) < lo \<or> hi < (of_char (rest ! 0) :: nat) then 1
         else if sz = 2 then 2
         else if \<not> isCont (rest ! 1) then 1
         else if sz = 3 then 3
         else if \<not> isCont (rest ! 2) then 1
         else 4)"

fun runeCount :: "string \<Rightarrow> nat" where
  "runeCount [] = 0"
| "runeCount (c # rest) = Suc (runeCount (drop (runeSize c rest - 1) rest))"

text \<open>
  Field widths: \<^verbatim>\<open>%5...\<close> pads on the left, \<^verbatim>\<open>%-10s\<close> on the right, with spaces up to
  the width, which \<^verbatim>\<open>fmt\<close> counts in runes.
\<close>

definition padLeft :: "nat \<Rightarrow> string \<Rightarrow> string" where
  "padLeft w s = replicate (w - runeCount s) CHR '' '' @ s"

definition padRight :: "nat \<Rightarrow> string \<Rightarrow> string" where
  "padRight w s = s @ replicate (w - runeCount s) CHR '' ''"

subsection \<open>Paths and the file system\<close>

text \<open>
  \<^verbatim>\<open>filepath.Ext\<close>: scanning from the end of the path up to the last separator, the suffix
  that starts at the first dot met; empty when no dot is met. The argument of
  \<open>extScan\<close> is the reversed rest of the path, its second argument the suffix read so
  far.
\<close>

fun extScan :: "string \<Rightarrow> string \<Rightarrow> string" where
  "extScan [] suffix = ''''"
| "extScan (c # r) suffix =
     (if c = CHR ''/'' then ''''
      else if c = CHR ''.'' then c # suffix
      else extScan r (c # suffix))"

definition filepath_Ext :: "string \<Rightarrow> string" where
  "filepath_Ext path = extScan (rev path) ''''"

text \<open>The extension-key of a counted file (lines 232 to 237 of the closure).\<close>

definition extKey :: "string \<Rightarrow> string" where
  "extKey name =
     (let ext = filepath_Ext name
      in if ext = '''' then ''[noext]'' else TrimPrefix ext ''.'')"

text \<open>
  A directory entry as the walk sees it: a file with its name and the result of
  \<^verbatim>\<open>d.Info()\<close> (an error, or the size), or a directory with its name, the entries that
  \<^verbatim>\<open>os.ReadDir\<close> returns and the error it may return with them. A file system gives the
  result of \<^verbatim>\<open>os.Lstat\<close> for a root path. Errors are their messages.
\<close>

datatype entry =
  FileEntry string "string + int"
| DirEntry string "entry list" "string option"

type_synonym filesystem = "string \<Rightarrow> string + entry"

fun entryName :: "entry \<Rightarrow> string" where
  "entryName (FileEntry name info) = name"
| "entryName (DirEntry name ds rerr) = name"

text \<open>
  What a \<^verbatim>\<open>fs.WalkDirFunc\<close> returns: \<^verbatim>\<open>nil\<close>, \<^verbatim>\<open>filepath.SkipDir\<close>,
  \<^verbatim>\<open>filepath.SkipAll\<close>, another error, or a run-time panic.
\<close>

datatype walk_result = Continue | SkipDir | SkipAll | Abort string | Panic

type_synonym 's walkfn = "string \<Rightarrow> entry option \<Rightarrow> string option \<Rightarrow> 's \<Rightarrow> walk_result \<times> 's"

text \<open>\<^verbatim>\<open>filepath.Join(path, name)\<close>, for a clean path and a plain name.\<close>

definition Join :: "string \<Rightarrow> string \<Rightarrow> string" where
  "Join path name = path @ ''/'' @ name"

text \<open>
  The recursion of \<^verbatim>\<open>filepath.WalkDir\<close> (the library's \<^verbatim>\<open>walkDir\<close>), the state of the
  closure threaded through the calls: the callback is called on the entry; a directory
  is read, a read error reported by a second call; the entries are walked in order, and
  \<^verbatim>\<open>SkipDir\<close> from one of them ends the loop.
\<close>

fun walkEntry :: "'s walkfn \<Rightarrow> string \<Rightarrow> entry \<Rightarrow> 's \<Rightarrow> walk_result \<times> 's"
  and walkEntries :: "'s walkfn \<Rightarrow> string \<Rightarrow> entry list \<Rightarrow> 's \<Rightarrow> walk_result \<times> 's" where
  "walkEntry fn path (FileEntry name info) s = fn path (Some (FileEntry name info)) None s"
| "walkEntry fn path (DirEntry name ds rerr) s =
     (case fn path (Some (DirEntry name ds rerr)) None s of (r, s1) \<Rightarrow>
        if r \<noteq> Continue then (if r = SkipDir then Continue else r, s1)
        else (case (case rerr of None \<Rightarrow> (Continue, s1)
                    | Some e \<Rightarrow> fn path (Some (DirEntry name ds rerr)) (Some e) s1) of (r2, s2) \<Rightarrow>
                if r2 \<noteq> Continue then (if r2 = SkipDir then Continue else r2, s2)
                else walkEntries fn path ds s2))"
| "walkEntries fn path [] s = (Continue, s)"
| "walkEntries fn path (d1 # ds) s =
     (case walkEntry fn (Join path (entryName d1)) d1 s of (r, s1) \<Rightarrow>
        if r \<noteq> Continue then (if r = SkipDir then Continue else r, s1)
        else walkEntries fn path ds s1)"

definition filepath_WalkDir :: "filesystem \<Rightarrow> string \<Rightarrow> 's walkfn \<Rightarrow> 's \<Rightarrow> walk_result \<times> 's" where
  "filepath_WalkDir fs rootPath fn s =
     (case (case fs rootPath of Inl e \<Rightarrow> fn rootPath None (Some e) s
            | Inr d \<Rightarrow> walkEntry fn rootPath d s) of (r, s') \<Rightarrow>
        (if r = SkipDir \<or> r = SkipAll then Continue else r, s'))"

subsection \<open>walkDir\<close>

text \<open>What the program writes to the error stream.\<close>

datatype arg_error = RequiresValue string | InvalidValue string strconv_error

datatype err_line =
  ErrorLine arg_error
| Skipping string string
| ErrorWalking string

text \<open>The variables the closure of \<^verbatim>\<open>walkDir\<close> updates, and the error stream.\<close>

record acc =
  accCounts :: gomap
  accSizeCounts :: gomap
  accTotal :: int
  accTotalBytes :: int
  accLog :: "err_line list"

text \<open>The closure passed to \<^verbatim>\<open>filepath.WalkDir\<close> (lines 207 to 248).\<close>

definition visit :: "Config \<Rightarrow> acc walkfn" where
  "visit cfg path d err a =
     (case err of
        Some e \<Rightarrow> (Continue, a\<lparr>accLog := accLog a @ [Skipping path e]\<rparr>)
      | None \<Rightarrow>
         (case d of
            None \<Rightarrow> (Panic, a)
          | Some (DirEntry name ds rerr) \<Rightarrow>
              if name \<in> ExcludeDirs cfg then (SkipDir, a) else (Continue, a)
          | Some (FileEntry name info) \<Rightarrow>
              if \<not> IncludeHidden cfg \<and> HasPrefix name ''.'' then (Continue, a)
              else
                (case info of
                   Inl e \<Rightarrow> (Continue, a\<lparr>accLog := accLog a @ [Skipping path e]\<rparr>)
                 | Inr sz \<Rightarrow>
                     if (MinSize cfg > 0 \<and> sz < MinSize cfg) \<or>
                        (MaxSize cfg > 0 \<and> sz > MaxSize cfg) then (Continue, a)
                     else
                       (let ext = extKey name
                        in if ext \<in> Exclude cfg then (Continue, a)
                           else (Continue,
                             a\<lparr>accTotalBytes := accTotalBytes a + sz,
                               accCounts := map_add (accCounts a) ext 1,
                               accSizeCounts := map_add (accSizeCounts a) ext sz,
                               accTotal := accTotal a + 1\<rparr>)))))"

definition walkDir :: "filesystem \<Rightarrow> Config \<Rightarrow> walk_result \<times> acc" where
  "walkDir fs cfg =
     filepath_WalkDir fs (Dir cfg) (visit cfg)
       \<lparr>accCounts = [], accSizeCounts = [], accTotal = 0, accTotalBytes = 0, accLog = []\<rparr>"

subsection \<open>aggregateStats\<close>

definition safeDivF :: "rat \<Rightarrow> rat \<Rightarrow> rat" where
  "safeDivF a b = (if b = 0 then 0 else float64 (a / b))"

text \<open>
  \<^verbatim>\<open>sort.Slice\<close> sorts a slice shorter than 12 elements by insertion sort
  (\<^verbatim>\<open>insertionSortLessFunc\<close>): each element in turn is swapped with its left neighbour
  while it is less than that neighbour. \<open>insertLess\<close> takes the sorted prefix reversed,
  its head the right-most element. Longer slices are sorted by another permutation;
  what is proved about the result below only uses that it is sorted and a permutation.
\<close>

fun insertLess :: "('a \<Rightarrow> 'a \<Rightarrow> bool) \<Rightarrow> 'a \<Rightarrow> 'a list \<Rightarrow> 'a list" where
  "insertLess lt x [] = [x]"
| "insertLess lt x (y # ys) = (if lt x y then y # insertLess lt x ys else x # y # ys)"

definition sort_Slice :: "('a \<Rightarrow> 'a \<Rightarrow> bool) \<Rightarrow> 'a list \<Rightarrow> 'a list" where
  "sort_Slice lt xs = rev (foldl (\<lambda>pre x. insertLess lt x pre) [] xs)"

text \<open>
  Addition of two \<^verbatim>\<open>int64\<close> (and of two \<^verbatim>\<open>int\<close>) wraps around: the result is the sum
  modulo \<open>2 ^ 64\<close>, read as a signed number.
\<close>

definition wrap64 :: "int \<Rightarrow> int" where
  "wrap64 x = (x + 2 ^ 63) mod 2 ^ 64 - 2 ^ 63"

text \<open>
  The two \<^verbatim>\<open>range\<close> loops, over the entries of the map in the order the run time yields
  them, with the variables \<^verbatim>\<open>stats\<close> and \<^verbatim>\<open>other\<close>.
\<close>

fun rangeSizes :: "Config \<Rightarrow> int \<Rightarrow> gomap \<Rightarrow> FileStat list \<times> int \<Rightarrow> FileStat list \<times> int" where
  "rangeSizes cfg totalBytes [] (stats, other) = (stats, other)"
| "rangeSizes cfg totalBytes ((k, v) # m) (stats, other) =
     (let percent = safeDivF (float64 (of_int v)) (float64 (of_int totalBytes))
      in if \<not> Verbose cfg \<and> percent < float64 (1 / 100)
         then rangeSizes cfg totalBytes m (stats, wrap64 (other + v))
         else rangeSizes cfg totalBytes m (stats @ [\<lparr>Ext = k, Count = 0, Size = v\<rparr>], other))"

fun rangeCounts :: "Config \<Rightarrow> int \<Rightarrow> gomap \<Rightarrow> FileStat list \<times> int \<Rightarrow> FileStat list \<times> int" where
  "rangeCounts cfg totalFiles [] (stats, other) = (stats, other)"
| "rangeCounts cfg totalFiles ((k, v) # m) (stats, other) =
     (let percent = safeDivF (float64 (of_int v)) (float64 (of_int totalFiles))
      in if \<not> Verbose cfg \<and> percent < float64 (1 / 100)
         then rangeCounts cfg totalFiles m (stats, wrap64 (other + v))
         else rangeCounts cfg totalFiles m (stats @ [\<lparr>Ext = k, Count = v, Size = 0\<rparr>], other))"

text \<open>
  Go yields the entries of a map in an order of its own choosing, another one at every
  \<^verbatim>\<open>range\<close>; \<open>rng\<close> is that choice, a permutation of the entries.
\<close>

definition aggregateStats ::
  "(gomap \<Rightarrow> gomap) \<Rightarrow> Config \<Rightarrow> gomap \<Rightarrow> gomap \<Rightarrow> int \<Rightarrow> int \<Rightarrow> FileStat list" where
  "aggregateStats rng cfg counts sizeCounts totalFiles totalBytes =
     (if BySize cfg then
        (case rangeSizes cfg totalBytes (rng sizeCounts) ([], 0) of (stats, other) \<Rightarrow>
           sort_Slice (\<lambda>a b. Size a > Size b)
             (if other > 0 then stats @ [\<lparr>Ext = ''other'', Count = 0, Size = other\<rparr>] else stats))
      else
        (case rangeCounts cfg totalFiles (rng counts) ([], 0) of (stats, other) \<Rightarrow>
           sort_Slice (\<lambda>a b. Count a > Count b)
             (if other > 0 then stats @ [\<lparr>Ext = ''other'', Count = other, Size = 0\<rparr>] else stats)))"

subsection \<open>printStats and humanReadableSize\<close>

text \<open>\<^verbatim>\<open>strings.Repeat\<close> panics on a negative count.\<close>

definition Repeat :: "string \<Rightarrow> int \<Rightarrow> string option" where
  "Repeat s n = (if n < 0 then None else Some (concat (replicate (nat n) s)))"

text \<open>
  The string of a filled cell, byte for byte as the literal of the source has it: the
  three characters U+00E2, U+2013, U+02C6 in UTF-8 (the bytes of the full block U+2588
  read as Windows-1252).
\<close>

definition block :: string where
  "block = [CHR 0xC3, CHR 0xA2, CHR 0xE2, CHR 0x80, CHR 0x93, CHR 0xCB, CHR 0x86]"

definition barWidth :: int where
  "barWidth = 40"

text \<open>The percentage of one entry (lines 303 to 312).\<close>

definition entryPercent :: "Config \<Rightarrow> FileStat \<Rightarrow> int \<Rightarrow> int \<Rightarrow> rat" where
  "entryPercent cfg s totalFiles totalBytes =
     (let percent =
        (if BySize cfg
         then float64 (safeDivF (float64 (of_int (Size s))) (float64 (of_int totalBytes)) * 100)
         else float64 (safeDivF (float64 (of_int (Count s))) (float64 (of_int totalFiles)) * 100))
      in if Human cfg then float64 (of_int (float_to_int (float64 (percent + 1 / 2)))) else percent)"

text \<open>
  The line printed for one entry (lines 314 to 320); \<open>None\<close> when \<^verbatim>\<open>strings.Repeat\<close>
  panics. The width of \<^verbatim>\<open>%-10s\<close> counts the runes of the key.
\<close>

definition entryLine :: "Config \<Rightarrow> FileStat \<Rightarrow> int \<Rightarrow> int \<Rightarrow> string option" where
  "entryLine cfg s totalFiles totalBytes =
     (let percent = entryPercent cfg s totalFiles totalBytes
      in if NoBar cfg then Some (padRight 10 (Ext s) @ '' '' @ padLeft 5 (fmt_f 0 percent) @ ''%'')
         else
           (let barLen = float_to_int (float64 (float64 (percent / 100) * of_int barWidth))
            in case Repeat block barLen of
                 None \<Rightarrow> None
               | Some filled \<Rightarrow>
                   (case Repeat ''-'' (barWidth - barLen) of
                      None \<Rightarrow> None
                    | Some rest \<Rightarrow>
                        Some (padRight 10 (Ext s) @ '' |'' @ filled @ rest @ ''| '' @
                              padLeft 5 (fmt_f 2 percent) @ ''%''))))"

text \<open>The loop of \<^verbatim>\<open>printStats\<close>: the lines printed, and whether it ran to its end.\<close>

fun printLoop :: "Config \<Rightarrow> FileStat list \<Rightarrow> int \<Rightarrow> int \<Rightarrow> string list \<times> bool" where
  "printLoop cfg [] totalFiles totalBytes = ([], True)"
| "printLoop cfg (s # stats) totalFiles totalBytes =
     (case entryLine cfg s totalFiles totalBytes of
        None \<Rightarrow> ([], False)
      | Some l \<Rightarrow> (case printLoop cfg stats totalFiles totalBytes of (ls, ok) \<Rightarrow> (l # ls, ok)))"

definition printStats :: "Config \<Rightarrow> FileStat list \<Rightarrow> int \<Rightarrow> int \<Rightarrow> string list \<times> bool" where
  "printStats cfg stats totalFiles totalBytes =
     (case printLoop cfg stats totalFiles totalBytes of (ls, ok) \<Rightarrow>
        ((if \<not> NoBar cfg then [''File type breakdown:''] else []) @ ls, ok))"

definition KB :: int where "KB = 1024"
definition MB :: int where "MB = 1024 * KB"
definition GB :: int where "GB = 1024 * MB"
definition TB :: int where "TB = 1024 * GB"

definition humanReadableSize :: "int \<Rightarrow> string" where
  "humanReadableSize bytes =
     (if bytes \<ge> TB then fmt_f 2 (float64 (float64 (of_int bytes) / of_int TB)) @ '' TB''
      else if bytes \<ge> GB then fmt_f 2 (float64 (float64 (of_int bytes) / of_int GB)) @ '' GB''
      else if bytes \<ge> MB then fmt_f 2 (float64 (float64 (of_int bytes) / of_int MB)) @ '' MB''
      else if bytes \<ge> KB then fmt_f 2 (float64 (float64 (of_int bytes) / of_int KB)) @ '' KB''
      else fmt_d bytes @ '' B'')"

subsection \<open>parseArgs\<close>

text \<open>
  What \<^verbatim>\<open>parseArgs\<close> returns: \<^verbatim>\<open>(nil, err)\<close>, \<^verbatim>\<open>(nil, nil)\<close> after
  \<^verbatim>\<open>--help\<close>, or \<^verbatim>\<open>(cfg, nil)\<close>.
\<close>

datatype parse_result = ParseError arg_error | HelpRequested | Parsed Config

definition defaultConfig :: Config where
  "defaultConfig =
     \<lparr>Dir = ''.'', Verbose = False, NoBar = False, ShowSize = False, SizeOnly = False,
      IncludeHidden = False, Human = False, MinSize = 0, MaxSize = 0, Exclude = {},
      ExcludeDirs = {}, BySize = False\<rparr>"

definition addExclude :: "Config \<Rightarrow> string \<Rightarrow> Config" where
  "addExclude cfg val =
     cfg\<lparr>Exclude := Exclude cfg \<union>
           set (map (\<lambda>ext. TrimPrefix (TrimSpace ext) ''.'') (Split val CHR '',''))\<rparr>"

definition addExcludeDirs :: "Config \<Rightarrow> string \<Rightarrow> Config" where
  "addExcludeDirs cfg val =
     cfg\<lparr>ExcludeDirs := ExcludeDirs cfg \<union> set (map TrimSpace (Split val CHR '',''))\<rparr>"

text \<open>
  The loop of \<^verbatim>\<open>parseArgs\<close> over \<^verbatim>\<open>args[i:]\<close>: the first token is \<^verbatim>\<open>args[i]\<close>; a flag
  that takes a value consumes the token after it.
\<close>

fun parseLoop :: "Config \<Rightarrow> string list \<Rightarrow> parse_result" where
  "parseLoop cfg [] = Parsed cfg"
| "parseLoop cfg (arg # rest) =
     (if Contains arg CHR ''='' then
        (case SplitN2 arg CHR ''='' of (key, val) \<Rightarrow>
           if key = ''--exclude'' then parseLoop (addExclude cfg val) rest
           else if key = ''--excludedir'' then parseLoop (addExcludeDirs cfg val) rest
           else if key = ''--minsize'' then
             (case ParseInt val of
                Inl e \<Rightarrow> ParseError (InvalidValue ''--minsize'' e)
              | Inr n \<Rightarrow> parseLoop (cfg\<lparr>MinSize := n\<rparr>) rest)
           else if key = ''--maxsize'' then
             (case ParseInt val of
                Inl e \<Rightarrow> ParseError (InvalidValue ''--maxsize'' e)
              | Inr n \<Rightarrow> parseLoop (cfg\<lparr>MaxSize := n\<rparr>) rest)
           else parseLoop cfg rest)
      else if arg = ''--verbose'' then parseLoop (cfg\<lparr>Verbose := True\<rparr>) rest
      else if arg = ''--nobar'' then parseLoop (cfg\<lparr>NoBar := True\<rparr>) rest
      else if arg = ''--size'' then parseLoop (cfg\<lparr>ShowSize := True\<rparr>) rest
      else if arg = ''--sizeonly'' then parseLoop (cfg\<lparr>SizeOnly := True\<rparr>) rest
      else if arg = ''--include-hidden'' then parseLoop (cfg\<lparr>IncludeHidden := True\<rparr>) rest
      else if arg = ''--human'' then parseLoop (cfg\<lparr>Human := True\<rparr>) rest
      else if arg = ''--minsize'' then
        (case rest of
           [] \<Rightarrow> ParseError (RequiresValue ''--minsize'')
         | v # rest' \<Rightarrow>
             (case ParseInt v of
                Inl e \<Rightarrow> ParseError (InvalidValue ''--minsize'' e)
              | Inr n \<Rightarrow> parseLoop (cfg\<lparr>MinSize := n\<rparr>) rest'))
      else if arg = ''--maxsize'' then
        (case rest of
           [] \<Rightarrow> ParseError (RequiresValue ''--maxsize'')
         | v # rest' \<Rightarrow>
             (case ParseInt v of
                Inl e \<Rightarrow> ParseError (InvalidValue ''--maxsize'' e)
              | Inr n \<Rightarrow> parseLoop (cfg\<lparr>MaxSize := n\<rparr>) rest'))
      else if arg = ''--exclude'' then
        (case rest of
           [] \<Rightarrow> ParseError (RequiresValue ''--exclude'')
         | v # rest' \<Rightarrow> parseLoop (addExclude cfg v) rest')
      else if arg = ''--excludedir'' then
        (case rest of
           [] \<Rightarrow> ParseError (RequiresValue ''--excludedir'')
         | v # rest' \<Rightarrow> parseLoop (addExcludeDirs cfg v) rest')
      else if arg = ''--bysize'' then parseLoop (cfg\<lparr>BySize := True\<rparr>) rest
      else if arg = ''--help'' then HelpRequested
      else parseLoop (cfg\<lparr>Dir := arg\<rparr>) rest)"

text \<open>The loop starts at \<^verbatim>\<open>args[1]\<close>.\<close>

definition parseArgs :: "string list \<Rightarrow> parse_result" where
  "parseArgs args = parseLoop defaultConfig (drop 1 args)"

subsection \<open>main\<close>

text \<open>The lines of \<^verbatim>\<open>helpString\<close>, each ended by a line feed in the source.\<close>

definition helpLines :: "string list" where
  "helpLines =
     ['''',
      ''Usage: file-stats [options] [directory]'',
      '''',
      ''Options:'',
      ''    --verbose           Show all file types, including those <1%.'',
      ''    --nobar             Suppress bar chart output, print percentages only.'',
      ''    --size              Print total directory size.'',
      ''    --sizeonly          Only print directory size and exit.'',
      ''    --include-hidden    Include hidden files in stats.'',
      ''    --human             Round percentages to whole numbers.'',
      ''    --minsize <bytes>   Only include files >= this size.'',
      ''    --maxsize <bytes>   Only include files <= this size.'',
      ''    --exclude <exts>    Comma-separated list of extensions to exclude.'',
      ''    --excludedir <dirs> Comma-separated list of directory names to exclude.'',
      ''    --bysize            Sort results by file size instead of count.'',
      ''    --help              Show this help.'']"

text \<open>
  What a run leaves behind: the lines on standard output, the lines on the error
  stream, and the exit status (2 after a panic).
\<close>

datatype err_out = Line err_line | PanicTrace

record outcome =
  stdout :: "string list"
  stderr :: "err_out list"
  exitCode :: nat

text \<open>The text of the error a walk ended with.\<close>

fun errorText :: "walk_result \<Rightarrow> string" where
  "errorText (Abort e) = e"
| "errorText SkipDir = ''skip this directory''"
| "errorText SkipAll = ''skip everything and stop the walk''"
| "errorText r = []"

text \<open>
  The rest of \<^verbatim>\<open>main\<close> once the walk has returned without an error (lines 75 to 90),
  with the order \<open>rng\<close> in which the run time yields the entries of a map.
\<close>

definition present :: "(gomap \<Rightarrow> gomap) \<Rightarrow> Config \<Rightarrow> acc \<Rightarrow> outcome" where
  "present rng cfg a =
     (if SizeOnly cfg then
        \<lparr>stdout = [humanReadableSize (accTotalBytes a)],
         stderr = map Line (accLog a), exitCode = 0\<rparr>
      else
        (let sizeLine =
           (if ShowSize cfg
            then [''Directory size: '' @ humanReadableSize (accTotalBytes a)] else [])
         in if accTotal a = 0 \<and> accTotalBytes a = 0 then
              \<lparr>stdout = sizeLine @ [''No files matched criteria.''],
               stderr = map Line (accLog a), exitCode = 0\<rparr>
            else
              (case printStats cfg
                      (aggregateStats rng cfg (accCounts a) (accSizeCounts a)
                         (accTotal a) (accTotalBytes a))
                      (accTotal a) (accTotalBytes a) of
                 (ls, ok) \<Rightarrow>
                   if ok then
                     \<lparr>stdout = sizeLine @ ls, stderr = map Line (accLog a), exitCode = 0\<rparr>
                   else
                     \<lparr>stdout = sizeLine @ ls,
                      stderr = map Line (accLog a) @ [PanicTrace], exitCode = 2\<rparr>)))"

text \<open>
  \<^verbatim>\<open>main\<close>, on the arguments \<^verbatim>\<open>os.Args\<close> and the file system.
  \<^verbatim>\<open>fmt.Println(helpString)\<close> ends the help text with one more line feed.
\<close>

definition main_go :: "(gomap \<Rightarrow> gomap) \<Rightarrow> filesystem \<Rightarrow> string list \<Rightarrow> outcome" where
  "main_go rng fs args =
     (case parseArgs args of
        ParseError e \<Rightarrow> \<lparr>stdout = [], stderr = [Line (ErrorLine e)], exitCode = 1\<rparr>
      | HelpRequested \<Rightarrow> \<lparr>stdout = helpLines @ [''''], stderr = [], exitCode = 0\<rparr>
      | Parsed cfg \<Rightarrow>
          (case walkDir fs cfg of (r, a) \<Rightarrow>
             if r = Panic then
               \<lparr>stdout = [], stderr = map Line (accLog a) @ [PanicTrace], exitCode = 2\<rparr>
             else if r \<noteq> Continue then
               \<lparr>stdout = [], stderr = map Line (accLog a @ [ErrorWalking (errorText r)]),
                exitCode = 1\<rparr>
             else present rng cfg a))"

subsection \<open>Expressions of the code, named\<close>

text \<open>
  The test of the two \<^verbatim>\<open>range\<close> loops of \<^verbatim>\<open>aggregateStats\<close>: the value \<open>v\<close> of a key is
  added to \<^verbatim>\<open>other\<close>, given the grand total \<open>t\<close>.
\<close>

definition collapses :: "Config \<Rightarrow> int \<Rightarrow> int \<Rightarrow> bool" where
  "collapses cfg v t =
     (\<not> Verbose cfg \<and> safeDivF (float64 (of_int v)) (float64 (of_int t)) < float64 (1 / 100))"

text \<open>The entry appended for a key in count mode (line 281) and in size mode (line 265).\<close>

definition countEntry :: "string \<times> int \<Rightarrow> FileStat" where
  "countEntry kv = \<lparr>Ext = fst kv, Count = snd kv, Size = 0\<rparr>"

definition sizeEntry :: "string \<times> int \<Rightarrow> FileStat" where
  "sizeEntry kv = \<lparr>Ext = fst kv, Count = 0, Size = snd kv\<rparr>"

text \<open>
  The value of \<^verbatim>\<open>other\<close> after the loop over the map \<open>m\<close>: the values of the keys that the
  test selects, added one after the other from 0, every addition wrapping.
\<close>

definition otherSum :: "Config \<Rightarrow> int \<Rightarrow> gomap \<Rightarrow> int" where
  "otherSum cfg t m =
     foldl (\<lambda>other v. wrap64 (other + v)) 0
       (map snd (filter (\<lambda>kv. collapses cfg (snd kv) t) m))"


subsection \<open>Invariants\<close>

text \<open>A property of every file of a tree.\<close>

fun allFiles :: "(string \<Rightarrow> string + int \<Rightarrow> bool) \<Rightarrow> entry \<Rightarrow> bool" where
  "allFiles P (FileEntry name info) = P name info"
| "allFiles P (DirEntry name ds rerr) = list_all (allFiles P) ds"

text \<open>A callback keeps an invariant of its state, on the entries of such a tree.\<close>

definition preserves ::
  "(string \<Rightarrow> string + int \<Rightarrow> bool) \<Rightarrow> ('s \<Rightarrow> bool) \<Rightarrow> 's walkfn \<Rightarrow> bool" where
  "preserves P I fn =
     (\<forall>p d e s. (case d of None \<Rightarrow> True | Some x \<Rightarrow> allFiles P x) \<longrightarrow> I s \<longrightarrow> I (snd (fn p d e s)))"

text \<open>
  The invariant of the accumulators: both maps have the same distinct keys, every
  count is positive, and the grand totals are the sums of the maps.
\<close>

definition accOK :: "acc \<Rightarrow> bool" where
  "accOK a =
     (distinct (map fst (accCounts a)) \<and>
      map fst (accSizeCounts a) = map fst (accCounts a) \<and>
      list_all (\<lambda>kv. 1 \<le> snd kv) (accCounts a) \<and>
      sum_list (map snd (accCounts a)) = accTotal a \<and>
      sum_list (map snd (accSizeCounts a)) = accTotalBytes a)"

text \<open>The run time yields every entry of a map once: \<open>rng\<close> permutes.\<close>

definition permutes :: "(gomap \<Rightarrow> gomap) \<Rightarrow> bool" where
  "permutes rng = (\<forall>m. mset (rng m) = mset m)"

subsection \<open>Notions of the specification\<close>

text \<open>
  The flags the \<^verbatim>\<open>switch\<close> of \<^verbatim>\<open>parseArgs\<close> knows, and a plain token: one that
  contains no \<open>=\<close> and is none of these flags.
\<close>

definition knownFlags :: "string list" where
  "knownFlags =
     [''--verbose'', ''--nobar'', ''--size'', ''--sizeonly'', ''--include-hidden'', ''--human'',
      ''--minsize'', ''--maxsize'', ''--exclude'', ''--excludedir'', ''--bysize'', ''--help'']"

definition plainToken :: "string \<Rightarrow> bool" where
  "plainToken t = (\<not> Contains t CHR ''='' \<and> t \<notin> set knownFlags)"

text \<open>The chosen metric of an entry: its size when sorting by size, its count otherwise.\<close>

definition metric :: "Config \<Rightarrow> FileStat \<Rightarrow> int" where
  "metric cfg s = (if BySize cfg then Size s else Count s)"

text \<open>
  The map of the chosen metric and its grand total: the cumulative sizes and the total
  byte size when sorting by size, the counts and the total file count otherwise.
\<close>

definition chosenMap :: "Config \<Rightarrow> gomap \<Rightarrow> gomap \<Rightarrow> gomap" where
  "chosenMap cfg counts sizeCounts = (if BySize cfg then sizeCounts else counts)"

definition chosenTotal :: "Config \<Rightarrow> int \<Rightarrow> int \<Rightarrow> int" where
  "chosenTotal cfg totalFiles totalBytes = (if BySize cfg then totalBytes else totalFiles)"

text \<open>The entry of a key of that map, and the entry \<^verbatim>\<open>other\<close> for a folded value.\<close>

definition ownEntry :: "Config \<Rightarrow> string \<times> int \<Rightarrow> FileStat" where
  "ownEntry cfg kv =
     (if BySize cfg then \<lparr>Ext = fst kv, Count = 0, Size = snd kv\<rparr>
      else \<lparr>Ext = fst kv, Count = snd kv, Size = 0\<rparr>)"

definition otherEntry :: "Config \<Rightarrow> int \<Rightarrow> FileStat" where
  "otherEntry cfg v =
     (if BySize cfg then \<lparr>Ext = ''other'', Count = 0, Size = v\<rparr>
      else \<lparr>Ext = ''other'', Count = v, Size = 0\<rparr>)"

text \<open>The exact share of a value in a total, 0 when the total is 0.\<close>

definition share :: "int \<Rightarrow> int \<Rightarrow> rat" where
  "share v t = (if t = 0 then 0 else of_int v / of_int t)"

text \<open>
  The collapsing law in the words of the specification, on exact shares: the keys of a
  map that appear as their own entries, and the sum of the values folded into \<^verbatim>\<open>other\<close>.
\<close>

definition spec_own :: "Config \<Rightarrow> gomap \<Rightarrow> int \<Rightarrow> gomap" where
  "spec_own cfg m t = filter (\<lambda>kv. Verbose cfg \<or> 1 / 100 \<le> share (snd kv) t) m"

definition spec_folded :: "Config \<Rightarrow> gomap \<Rightarrow> int \<Rightarrow> int" where
  "spec_folded cfg m t =
     sum_list (map snd (filter (\<lambda>kv. \<not> Verbose cfg \<and> share (snd kv) t < 1 / 100) m))"

text \<open>
  The percentage of the specification, exact: the share of the chosen metric of an entry
  in its grand total, times 100. And the rounding of the specification to a whole
  number, a half rounding up.
\<close>

definition spec_percent :: "Config \<Rightarrow> FileStat \<Rightarrow> int \<Rightarrow> int \<Rightarrow> rat" where
  "spec_percent cfg s totalFiles totalBytes =
     share (metric cfg s) (chosenTotal cfg totalFiles totalBytes) * 100"

definition spec_round :: "rat \<Rightarrow> int" where
  "spec_round x = \<lfloor>x + 1 / 2\<rfloor>"

text \<open>
  The units of the specification above the byte, with their multipliers, and the unit
  for a size of at least 1024 bytes: the largest unit whose multiplier the size reaches.
\<close>

definition unitTable :: "(string \<times> int) list" where
  "unitTable = [(''KB'', 2 ^ 10), (''MB'', 2 ^ 20), (''GB'', 2 ^ 30), (''TB'', 2 ^ 40)]"

definition spec_unit :: "int \<Rightarrow> string \<times> int" where
  "spec_unit b = last (filter (\<lambda>um. snd um \<le> b) unitTable)"

text \<open>A number of hundredths, printed with two decimals.\<close>

definition twoDecimals :: "nat \<Rightarrow> string" where
  "twoDecimals h =
     decimal (h div 100) @ ''.'' @ [''0123456789'' ! (h div 10 mod 10), ''0123456789'' ! (h mod 10)]"

section \<open>The extension of a dot file\<close>

lemma extScan_plain:
  "CHR ''.'' \<notin> set s \<Longrightarrow> CHR ''/'' \<notin> set s \<Longrightarrow>
     extScan (rev s @ r) suffix = extScan r (s @ suffix)"
  by (induction s arbitrary: r suffix) auto

lemma filepath_Ext_dotfile:
  assumes "CHR ''.'' \<notin> set s" "CHR ''/'' \<notin> set s"
  shows "filepath_Ext (CHR ''.'' # s) = CHR ''.'' # s"
  using extScan_plain [OF assms, of "''.''" "''''"] by (simp add: filepath_Ext_def)

lemma extKey_dotfile:
  assumes "CHR ''.'' \<notin> set s" "CHR ''/'' \<notin> set s"
  shows "extKey (CHR ''.'' # s) = s"
  by (simp add: extKey_def filepath_Ext_dotfile [OF assms] TrimPrefix_def HasPrefix_def)

text \<open>
  C6, as the specification states it, fails: \<^verbatim>\<open>filepath.Ext\<close> has no special case for a
  leading dot, so the extension of \<^verbatim>\<open>.bashrc\<close> is \<^verbatim>\<open>.bashrc\<close>, not empty, and the file is
  counted under the key \<^verbatim>\<open>bashrc\<close>, not under \<^verbatim>\<open>[noext]\<close>.
\<close>

theorem C6_dotfile_counterexample:
  "filepath_Ext ''.bashrc'' = ''.bashrc'' \<and> extKey ''.bashrc'' = ''bashrc'' \<and>
   extKey ''.bashrc'' \<noteq> ''[noext]'' \<and>
   accCounts (snd (visit (defaultConfig\<lparr>IncludeHidden := True\<rparr>) ''./.bashrc''
      (Some (FileEntry ''.bashrc'' (Inr 7))) None
      \<lparr>accCounts = [], accSizeCounts = [], accTotal = 0, accTotalBytes = 0, accLog = []\<rparr>))
     = [(''bashrc'', 1)]"
  by code_simp

text \<open>
  C6, amended: a file whose base name is a dot followed by a name \<open>s\<close> with no further
  dot has the extension \<open>.s\<close>, the whole base name; when it is counted (hidden files
  included, its size within the bounds, \<open>s\<close> not excluded) it is counted under the
  extension-key \<open>s\<close>.
\<close>

theorem C6_dotfile_key:
  assumes "CHR ''.'' \<notin> set s" and "CHR ''/'' \<notin> set s"
    and "IncludeHidden cfg" and "MinSize cfg \<le> 0 \<or> MinSize cfg \<le> sz"
    and "MaxSize cfg \<le> 0 \<or> sz \<le> MaxSize cfg" and "s \<notin> Exclude cfg"
  shows "filepath_Ext (CHR ''.'' # s) = CHR ''.'' # s \<and> extKey (CHR ''.'' # s) = s \<and>
         visit cfg path (Some (FileEntry (CHR ''.'' # s) (Inr sz))) None a =
           (Continue, a\<lparr>accTotalBytes := accTotalBytes a + sz,
                         accCounts := map_add (accCounts a) s 1,
                         accSizeCounts := map_add (accSizeCounts a) s sz,
                         accTotal := accTotal a + 1\<rparr>)"
proof -
  have k: "extKey (CHR ''.'' # s) = s" by (rule extKey_dotfile [OF assms(1,2)])
  have "visit cfg path (Some (FileEntry (CHR ''.'' # s) (Inr sz))) None a =
           (Continue, a\<lparr>accTotalBytes := accTotalBytes a + sz,
                         accCounts := map_add (accCounts a) s 1,
                         accSizeCounts := map_add (accSizeCounts a) s sz,
                         accTotal := accTotal a + 1\<rparr>)"
    using assms(3-6) by (auto simp: visit_def k)
  then show ?thesis using k filepath_Ext_dotfile [OF assms(1,2)] by simp
qed

theorem C6_dotfile_key_witness:
  "filepath_Ext ''.bashrc'' = ''.bashrc'' \<and> extKey ''.bashrc'' = ''bashrc'' \<and>
   visit (defaultConfig\<lparr>IncludeHidden := True\<rparr>) ''./.bashrc''
      (Some (FileEntry ''.bashrc'' (Inr 7))) None
      \<lparr>accCounts = [], accSizeCounts = [], accTotal = 0, accTotalBytes = 0, accLog = []\<rparr>
     = (Continue,
        \<lparr>accCounts = [(''bashrc'', 1)], accSizeCounts = [(''bashrc'', 7)], accTotal = 1,
         accTotalBytes = 7, accLog = []\<rparr>)"
  using C6_dotfile_key [of "''bashrc''" "defaultConfig\<lparr>IncludeHidden := True\<rparr>" 7 "''./.bashrc''"
      "\<lparr>accCounts = [], accSizeCounts = [], accTotal = 0, accTotalBytes = 0, accLog = []\<rparr>"]
  by (simp add: defaultConfig_def)

section \<open>Plain tokens of the command line\<close>

lemma parseLoop_plain:
  assumes "plainToken tok"
  shows "parseLoop cfg (tok # rest) = parseLoop (cfg\<lparr>Dir := tok\<rparr>) rest"
  using assms by (simp add: plainToken_def knownFlags_def)

declare parseLoop.simps(2) [simp del]

lemma parseLoop_all_plain:
  "list_all plainToken toks \<Longrightarrow>
     parseLoop cfg toks = Parsed (cfg\<lparr>Dir := (if toks = [] then Dir cfg else last toks)\<rparr>)"
proof (induction toks arbitrary: cfg)
  case Nil
  then show ?case by simp
next
  case (Cons t ts)
  then have "parseLoop cfg (t # ts) = parseLoop (cfg\<lparr>Dir := t\<rparr>) ts"
    by (simp add: parseLoop_plain)
  also have "\<dots> = Parsed (cfg\<lparr>Dir := t\<rparr>\<lparr>Dir := (if ts = [] then t else last ts)\<rparr>)"
    using Cons by simp
  finally show ?case by simp
qed

text \<open>
  C10, as stated, fails for a token in the place of a flag's value: \<^verbatim>\<open>abc\<close> after
  \<^verbatim>\<open>--minsize\<close> is no flag and has no \<open>=\<close>, and it is reported as an error; \<^verbatim>\<open>txt\<close> after
  \<^verbatim>\<open>--exclude\<close> is the last such token and does not become the directory.
\<close>

theorem C10_value_token_counterexample:
  "plainToken ''abc'' \<and>
   parseArgs [''dstat'', ''--minsize'', ''abc''] = ParseError (InvalidValue ''--minsize'' ErrSyntax) \<and>
   plainToken ''txt'' \<and>
   parseArgs [''dstat'', ''src'', ''--exclude'', ''txt''] =
     Parsed (defaultConfig\<lparr>Dir := ''src'', Exclude := {''txt''}\<rparr>)"
  by code_simp

text \<open>
  C10, amended: a plain token that the loop reads as \<^verbatim>\<open>args[i]\<close> (one that is not consumed
  as the value of \<^verbatim>\<open>--minsize\<close>, \<^verbatim>\<open>--maxsize\<close>, \<^verbatim>\<open>--exclude\<close> or \<^verbatim>\<open>--excludedir\<close>) only
  sets the directory, overwriting an earlier one, and parsing goes on; so a command line
  of plain tokens is parsed without error, the last token being the directory.
\<close>

theorem C10_plain_token_sets_dir:
  assumes "plainToken tok" and "list_all plainToken toks"
  shows "parseLoop cfg (tok # rest) = parseLoop (cfg\<lparr>Dir := tok\<rparr>) rest \<and>
         parseArgs (prog # toks @ [tok]) = Parsed (defaultConfig\<lparr>Dir := tok\<rparr>)"
proof -
  have "list_all plainToken (toks @ [tok])" using assms by simp
  from parseLoop_all_plain [OF this, of defaultConfig]
  have "parseArgs (prog # toks @ [tok]) = Parsed (defaultConfig\<lparr>Dir := tok\<rparr>)"
    by (simp add: parseArgs_def)
  then show ?thesis using parseLoop_plain [OF assms(1)] by simp
qed

theorem C10_plain_token_sets_dir_witness:
  "plainToken ''--bogus'' \<and> list_all plainToken [''src''] \<and>
   parseLoop (defaultConfig\<lparr>Dir := ''src''\<rparr>) [''--bogus''] =
     Parsed (defaultConfig\<lparr>Dir := ''--bogus''\<rparr>) \<and>
   parseArgs [''dstat'', ''src'', ''--bogus''] = Parsed (defaultConfig\<lparr>Dir := ''--bogus''\<rparr>)"
proof -
  have p: "plainToken ''--bogus''" "list_all plainToken [''src'']"
    by (simp_all add: plainToken_def knownFlags_def Contains_def)
  from C10_plain_token_sets_dir [OF p, of "defaultConfig\<lparr>Dir := ''src''\<rparr>" "[]" "''dstat''"]
  have "parseLoop (defaultConfig\<lparr>Dir := ''src''\<rparr>) [''--bogus''] =
          parseLoop (defaultConfig\<lparr>Dir := ''src'', Dir := ''--bogus''\<rparr>) []"
    and "parseArgs [''dstat'', ''src'', ''--bogus''] = Parsed (defaultConfig\<lparr>Dir := ''--bogus''\<rparr>)"
    by simp_all
  then show ?thesis using p by simp
qed

section \<open>The walk\<close>

subsection \<open>The walk never ends with an error\<close>

lemma visit_result:
  "visit cfg p (Some d) e a = (r, a') \<Longrightarrow>
     r = Continue \<or> (r = SkipDir \<and> (\<exists>n ds re. d = DirEntry n ds re))"
  by (auto simp: visit_def Let_def split: option.splits entry.splits sum.splits if_splits)

lemma visit_file_result:
  "visit cfg p (Some (FileEntry n i)) None a = (r, a') \<Longrightarrow> r = Continue"
  by (drule visit_result) auto

lemma visit_err_result: "visit cfg p d (Some e) a = (r, a') \<Longrightarrow> r = Continue"
  by (auto simp: visit_def)

lemma walk_visit_result:
  "walkEntry (visit cfg) p d s = (r, s') \<Longrightarrow> r = Continue"
  "walkEntries (visit cfg) p ds s = (r, s') \<Longrightarrow> r = Continue"
proof (induction "visit cfg" p d s and "visit cfg" p ds s arbitrary: r s' and r s'
       rule: walkEntry_walkEntries.induct)
  case (1 path name info s)
  then show ?case by (simp add: visit_file_result)
next
  case (2 path name ds rerr s)
  obtain r1 s1 where v1: "visit cfg path (Some (DirEntry name ds rerr)) None s = (r1, s1)"
    by (cases "visit cfg path (Some (DirEntry name ds rerr)) None s")
  have r1: "r1 = Continue \<or> r1 = SkipDir"
    using visit_result [OF v1] by auto
  show ?case
  proof (cases "r1 = Continue")
    case False
    then show ?thesis using r1 v1 2(2) by auto
  next
    case True
    obtain r2 s2 where v2: "(case rerr of None \<Rightarrow> (Continue, s1)
                    | Some e \<Rightarrow> visit cfg path (Some (DirEntry name ds rerr)) (Some e) s1) = (r2, s2)"
      by (cases "(case rerr of None \<Rightarrow> (Continue, s1)
                    | Some e \<Rightarrow> visit cfg path (Some (DirEntry name ds rerr)) (Some e) s1)")
    have r2: "r2 = Continue"
      using v2 by (cases rerr) (auto dest: visit_err_result)
    have "walkEntries (visit cfg) path ds s2 = (r, s')"
      using 2(2) True v1 v2 r2 by simp
    then show ?thesis using 2(1) [OF v1 [symmetric] _ v2 [symmetric]] True r2 by simp
  qed
next
  case (3 path s)
  then show ?case by simp
next
  case (4 path d1 ds s)
  obtain r1 s1 where w: "walkEntry (visit cfg) (Join path (entryName d1)) d1 s = (r1, s1)"
    by (cases "walkEntry (visit cfg) (Join path (entryName d1)) d1 s")
  have r1: "r1 = Continue" using 4(1) w by simp
  then have "walkEntries (visit cfg) path ds s1 = (r, s')" using 4(3) w by simp
  then show ?case using 4(2) [OF w [symmetric]] r1 by simp
qed

lemma walkDir_result: "walkDir fs cfg = (r, a) \<Longrightarrow> r = Continue"
  by (cases "fs (Dir cfg)")
     (auto simp: walkDir_def filepath_WalkDir_def
           split: prod.splits if_splits dest: visit_err_result walk_visit_result)

subsection \<open>Invariants of the walk\<close>

lemma preservesD:
  "preserves P I fn \<Longrightarrow> I s \<Longrightarrow> (\<And>x. d = Some x \<Longrightarrow> allFiles P x) \<Longrightarrow>
     fn p d e s = (r, s') \<Longrightarrow> I s'"
  unfolding preserves_def by (cases d) (metis option.simps(4) snd_conv, metis option.simps(5) snd_conv)

lemma walk_preserves:
  "preserves P I fn \<Longrightarrow> I s \<Longrightarrow> allFiles P d \<Longrightarrow> walkEntry fn p d s = (r, s') \<Longrightarrow> I s'"
  "preserves P I fn \<Longrightarrow> I s \<Longrightarrow> list_all (allFiles P) ds \<Longrightarrow>
     walkEntries fn p ds s = (r, s') \<Longrightarrow> I s'"
proof (induction fn p d s and fn p ds s arbitrary: r s' and r s'
       rule: walkEntry_walkEntries.induct)
  case (1 fn path name info s)
  have "fn path (Some (FileEntry name info)) None s = (r, s')" using 1(4) by simp
  from preservesD [OF 1(1,2) _ this] 1(3) show ?case by simp
next
  case (2 fn path name ds rerr s)
  obtain r1 s1 where v1: "fn path (Some (DirEntry name ds rerr)) None s = (r1, s1)"
    by (cases "fn path (Some (DirEntry name ds rerr)) None s")
  have I1: "I s1" using preservesD [OF 2(2,3) _ v1] 2(4) by simp
  show ?case
  proof (cases "r1 = Continue")
    case False
    then show ?thesis using v1 2(5) I1 by auto
  next
    case True
    obtain r2 s2 where v2: "(case rerr of None \<Rightarrow> (Continue, s1)
                    | Some e \<Rightarrow> fn path (Some (DirEntry name ds rerr)) (Some e) s1) = (r2, s2)"
      by (cases "(case rerr of None \<Rightarrow> (Continue, s1)
                    | Some e \<Rightarrow> fn path (Some (DirEntry name ds rerr)) (Some e) s1)")
    have I2: "I s2"
    proof (cases rerr)
      case None
      then show ?thesis using v2 I1 by simp
    next
      case (Some e)
      then have "fn path (Some (DirEntry name ds rerr)) (Some e) s1 = (r2, s2)" using v2 by simp
      from preservesD [OF 2(2) I1 _ this] 2(4) show ?thesis by simp
    qed
    show ?thesis
    proof (cases "r2 = Continue")
      case False
      then show ?thesis using v1 v2 True 2(5) I2 by auto
    next
      case r2: True
      have "walkEntries fn path ds s2 = (r, s')" using 2(5) True v1 v2 r2 by simp
      from 2(1) [OF v1 [symmetric] _ v2 [symmetric] _ 2(2) I2 _ this] True r2 2(4)
      show ?thesis by simp
    qed
  qed
next
  case (3 fn path s)
  then show ?case by simp
next
  case (4 fn path d1 ds s)
  obtain r1 s1 where w: "walkEntry fn (Join path (entryName d1)) d1 s = (r1, s1)"
    by (cases "walkEntry fn (Join path (entryName d1)) d1 s")
  have I1: "I s1" using 4(1) [OF 4(3,4) _ w] 4(5) by simp
  show ?case
  proof (cases "r1 = Continue")
    case False
    then show ?thesis using w 4(6) I1 by auto
  next
    case True
    then have "walkEntries fn path ds s1 = (r, s')" using 4(6) w by simp
    from 4(2) [OF w [symmetric] _ 4(3) I1 _ this] True 4(5) show ?thesis by simp
  qed
qed

lemma walkDir_preserves:
  assumes "preserves P I (visit cfg)"
    and "I \<lparr>accCounts = [], accSizeCounts = [], accTotal = 0, accTotalBytes = 0, accLog = []\<rparr>"
    and "case fs (Dir cfg) of Inl e \<Rightarrow> True | Inr d \<Rightarrow> allFiles P d"
    and "walkDir fs cfg = (r, a)"
  shows "I a"
proof (cases "fs (Dir cfg)")
  case (Inl e)
  then show ?thesis
    using assms(4) preservesD [OF assms(1,2), of None "Dir cfg" "Some e"]
    by (auto simp: walkDir_def filepath_WalkDir_def split: prod.splits)
next
  case (Inr d)
  then show ?thesis
    using assms(3,4) walk_preserves(1) [OF assms(1,2), of d "Dir cfg"]
    by (auto simp: walkDir_def filepath_WalkDir_def split: prod.splits)
qed

lemma allFiles_True: "allFiles (\<lambda>n i. True) d"
  by (induction d) (auto simp: list_all_iff)

text \<open>The map operation \<^verbatim>\<open>m[k] += d\<close>.\<close>

lemma map_add_keys:
  "map fst (map_add m k d) = (if k \<in> set (map fst m) then map fst m else map fst m @ [k])"
  by (induction m) (auto simp: rev_image_eqI)

lemma map_add_sum: "sum_list (map snd (map_add m k d)) = sum_list (map snd m) + d"
  by (induction m) auto

lemma map_add_lower:
  "list_all (\<lambda>kv. lo \<le> snd kv) m \<Longrightarrow> lo \<le> d \<Longrightarrow> 0 \<le> d \<Longrightarrow>
     list_all (\<lambda>kv. lo \<le> snd kv) (map_add m k d)"
  by (induction m) auto

lemma map_add_distinct: "distinct (map fst m) \<Longrightarrow> distinct (map fst (map_add m k d))"
  by (simp add: map_add_keys)

lemma visit_accOK: "preserves (\<lambda>n i. True) accOK (visit cfg)"
  unfolding preserves_def
proof (intro allI impI)
  fix p d e s
  assume ok: "accOK s"
  have keys: "map fst (map_add (accSizeCounts s) k sz) = map fst (map_add (accCounts s) k 1)"
    for k sz using ok by (simp add: map_add_keys accOK_def)
  show "accOK (snd (visit cfg p d e s))"
    using ok keys
    by (auto simp: visit_def Let_def accOK_def map_add_distinct map_add_sum map_add_lower
             split: option.splits entry.splits sum.splits)
qed

lemma walkDir_accOK: "walkDir fs cfg = (r, a) \<Longrightarrow> accOK a"
  by (rule walkDir_preserves [OF visit_accOK])
     (auto simp: accOK_def allFiles_True split: sum.splits)

lemma accOK_no_files:
  assumes "accOK a" and "accTotal a = 0"
  shows "accCounts a = [] \<and> accSizeCounts a = [] \<and> accTotalBytes a = 0"
proof -
  have nonneg: "list_all (\<lambda>kv. 1 \<le> snd kv) m \<Longrightarrow> 0 \<le> sum_list (map snd m)"
    for m :: gomap
    by (induction m) auto
  have pos: "list_all (\<lambda>kv. 1 \<le> snd kv) m \<Longrightarrow> m \<noteq> [] \<Longrightarrow> 0 < sum_list (map snd m)"
    for m :: gomap
    using nonneg by (cases m) fastforce+
  have "accCounts a = []" using pos [of "accCounts a"] assms by (auto simp: accOK_def)
  moreover from this have "accSizeCounts a = []" using assms(1) by (simp add: accOK_def)
  ultimately show ?thesis using assms(1) by (auto simp: accOK_def)
qed

text \<open>
  C1: the specification is right that a root that cannot be walked should be fatal, and
  \<^verbatim>\<open>main\<close> has the branch for it; but the closure of \<^verbatim>\<open>walkDir\<close> answers every error it
  is given with \<^verbatim>\<open>nil\<close>, the error of \<^verbatim>\<open>os.Lstat\<close> on the root included, so the walk never
  returns an error. For a root that does not exist the program logs the path as
  skipped, prints that no files matched and exits with status 0.
\<close>

theorem C1_missing_root_exits_zero:
  "fst (walkDir fs cfg) = Continue \<and>
   main_go rng (\<lambda>p. Inl e) [''dstat'', ''/nonexistent''] =
     \<lparr>stdout = [''No files matched criteria.''],
      stderr = [Line (Skipping ''/nonexistent'' e)], exitCode = 0\<rparr>"
proof -
  have "fst (walkDir fs cfg) = Continue"
    using walkDir_result [of fs cfg] by (cases "walkDir fs cfg") simp
  moreover have "parseArgs [''dstat'', ''/nonexistent''] = Parsed (defaultConfig\<lparr>Dir := ''/nonexistent''\<rparr>)"
    by code_simp
  then have "main_go rng (\<lambda>p. Inl e) [''dstat'', ''/nonexistent''] =
     \<lparr>stdout = [''No files matched criteria.''],
      stderr = [Line (Skipping ''/nonexistent'' e)], exitCode = 0\<rparr>"
    by (simp add: main_go_def walkDir_def filepath_WalkDir_def visit_def present_def
        defaultConfig_def)
  ultimately show ?thesis by simp
qed

section \<open>No file matches\<close>

lemma humanReadableSize_zero: "humanReadableSize 0 = ''0 B''"
  by (simp add: humanReadableSize_def TB_def GB_def MB_def KB_def fmt_d_def)

text \<open>
  C5, as stated, fails with \<^verbatim>\<open>--sizeonly\<close>: on an empty directory the program prints the
  size line \<^verbatim>\<open>0 B\<close> and returns before the test for an empty result.
\<close>

theorem C5_sizeonly_counterexample:
  "stdout (main_go id (\<lambda>p. Inr (DirEntry ''.'' [] None)) [''dstat'', ''--sizeonly'']) = [''0 B''] \<and>
   ''No files matched criteria.'' \<notin>
     set (stdout (main_go id (\<lambda>p. Inr (DirEntry ''.'' [] None)) [''dstat'', ''--sizeonly'']))"
  by code_simp

text \<open>
  C5, amended: when the command line is parsed to a configuration and the walk counts
  no file, the program exits with status 0, and unless \<^verbatim>\<open>--sizeonly\<close> is set it prints
  \<^verbatim>\<open>No files matched criteria.\<close> (after the line \<^verbatim>\<open>Directory size: 0 B\<close> when \<^verbatim>\<open>--size\<close>
  is set); with \<^verbatim>\<open>--sizeonly\<close> it prints only \<^verbatim>\<open>0 B\<close>.
\<close>

theorem C5_no_match_message:
  assumes "parseArgs args = Parsed cfg" and "walkDir fs cfg = (r, a)" and "accTotal a = 0"
  shows "main_go rng fs args =
           (if SizeOnly cfg
            then \<lparr>stdout = [''0 B''], stderr = map Line (accLog a), exitCode = 0\<rparr>
            else \<lparr>stdout = (if ShowSize cfg then [''Directory size: 0 B''] else []) @
                            [''No files matched criteria.''],
                  stderr = map Line (accLog a), exitCode = 0\<rparr>)"
proof -
  have r: "r = Continue" by (rule walkDir_result [OF assms(2)])
  have "accTotalBytes a = 0"
    using accOK_no_files [OF walkDir_accOK [OF assms(2)] assms(3)] by simp
  then show ?thesis
    using assms r by (simp add: main_go_def present_def humanReadableSize_zero)
qed

theorem C5_no_match_message_witness:
  "main_go id (\<lambda>p. Inr (DirEntry ''.'' [FileEntry ''.hidden'' (Inr 3)] None)) [''dstat'', ''--size''] =
     \<lparr>stdout = [''Directory size: 0 B'', ''No files matched criteria.''],
      stderr = [], exitCode = 0\<rparr>"
proof -
  have 1: "parseArgs [''dstat'', ''--size''] = Parsed (defaultConfig\<lparr>ShowSize := True\<rparr>)"
    by code_simp
  have 2: "walkDir (\<lambda>p. Inr (DirEntry ''.'' [FileEntry ''.hidden'' (Inr 3)] None))
             (defaultConfig\<lparr>ShowSize := True\<rparr>) =
           (Continue,
            \<lparr>accCounts = [], accSizeCounts = [], accTotal = 0, accTotalBytes = 0, accLog = []\<rparr>)"
    by code_simp
  show ?thesis using C5_no_match_message [OF 1 2, of id] by (simp add: defaultConfig_def)
qed

section \<open>aggregateStats\<close>

subsection \<open>The sort\<close>

lemma mset_insertLess: "mset (insertLess lt x ys) = add_mset x (mset ys)"
  by (induction ys) auto

lemma mset_foldl_insertLess:
  "mset (foldl (\<lambda>pre x. insertLess lt x pre) pre0 xs) = mset pre0 + mset xs"
  by (induction xs arbitrary: pre0) (auto simp: mset_insertLess)

lemma mset_sort_Slice: "mset (sort_Slice lt xs) = mset xs"
  by (simp add: sort_Slice_def mset_foldl_insertLess)

lemma set_insertLess: "set (insertLess lt x ys) = insert x (set ys)"
  using mset_insertLess [of lt x ys] by (metis set_mset_add_mset_insert set_mset_mset)

lemma sorted_insertLess:
  fixes f :: "'a \<Rightarrow> int"
  shows "sorted_wrt (\<lambda>a b. f a \<le> f b) ys \<Longrightarrow>
           sorted_wrt (\<lambda>a b. f a \<le> f b) (insertLess (\<lambda>a b. f a > f b) x ys)"
  by (induction ys) (auto simp: set_insertLess)

lemma sorted_foldl_insertLess:
  fixes f :: "'a \<Rightarrow> int"
  shows "sorted_wrt (\<lambda>a b. f a \<le> f b) pre0 \<Longrightarrow>
           sorted_wrt (\<lambda>a b. f a \<le> f b) (foldl (\<lambda>pre x. insertLess (\<lambda>a b. f a > f b) x pre) pre0 xs)"
  by (induction xs arbitrary: pre0) (auto simp: sorted_insertLess)

lemma sorted_sort_Slice:
  fixes f :: "'a \<Rightarrow> int"
  shows "sorted_wrt (\<lambda>a b. f b \<le> f a) (sort_Slice (\<lambda>a b. f a > f b) xs)"
  by (simp add: sort_Slice_def sorted_wrt_rev sorted_foldl_insertLess)

lemma sorted_desc_unique:
  fixes f :: "'a \<Rightarrow> int"
  assumes "mset xs = mset ys"
    and "sorted_wrt (\<lambda>a b. f b \<le> f a) xs" and "sorted_wrt (\<lambda>a b. f b \<le> f a) ys"
    and "distinct (map f xs)"
  shows "xs = ys"
proof -
  have sx: "sorted (rev (map f xs))" and sy: "sorted (rev (map f ys))"
    using assms(2,3) by (simp_all add: sorted_wrt_rev sorted_wrt_map flip: rev_map)
  have m: "mset (rev (map f xs)) = mset (rev (map f ys))"
    using assms(1) by (metis mset_map mset_rev)
  have "rev (map f xs) = rev (map f ys)"
    using properties_for_sort [OF m sx] properties_for_sort [OF refl sy] by simp
  then have eq: "map f xs = map f ys" by simp
  have "set ys = set xs" using assms(1) by (metis set_mset_mset)
  moreover have "inj_on f (set xs)" using assms(4) by (simp add: distinct_map)
  ultimately show ?thesis using eq by (simp add: map_inj_on)
qed

subsection \<open>The loops\<close>

lemma rangeCounts_eq:
  "rangeCounts cfg t m (stats, other) =
     (stats @ map countEntry (filter (\<lambda>kv. \<not> collapses cfg (snd kv) t) m),
      foldl (\<lambda>other v. wrap64 (other + v)) other
        (map snd (filter (\<lambda>kv. collapses cfg (snd kv) t) m)))"
  by (induction m arbitrary: stats other) (auto simp: collapses_def countEntry_def Let_def)

lemma rangeSizes_eq:
  "rangeSizes cfg t m (stats, other) =
     (stats @ map sizeEntry (filter (\<lambda>kv. \<not> collapses cfg (snd kv) t) m),
      foldl (\<lambda>other v. wrap64 (other + v)) other
        (map snd (filter (\<lambda>kv. collapses cfg (snd kv) t) m)))"
  by (induction m arbitrary: stats other) (auto simp: collapses_def sizeEntry_def Let_def)

lemma aggregateStats_count_mode:
  assumes "\<not> BySize cfg"
  shows "aggregateStats rng cfg counts sizeCounts t tb =
     sort_Slice (\<lambda>a b. Count a > Count b)
       (map countEntry (filter (\<lambda>kv. \<not> collapses cfg (snd kv) t) (rng counts)) @
        (if 0 < otherSum cfg t (rng counts)
         then [\<lparr>Ext = ''other'', Count = otherSum cfg t (rng counts), Size = 0\<rparr>]
         else []))"
  using assms by (simp add: aggregateStats_def rangeCounts_eq otherSum_def)

lemma aggregateStats_size_mode:
  assumes "BySize cfg"
  shows "aggregateStats rng cfg counts sizeCounts t tb =
     sort_Slice (\<lambda>a b. Size a > Size b)
       (map sizeEntry (filter (\<lambda>kv. \<not> collapses cfg (snd kv) tb) (rng sizeCounts)) @
        (if 0 < otherSum cfg tb (rng sizeCounts)
         then [\<lparr>Ext = ''other'', Count = 0, Size = otherSum cfg tb (rng sizeCounts)\<rparr>]
         else []))"
  using assms by (simp add: aggregateStats_def rangeSizes_eq otherSum_def)

lemma sorted_metric:
  "sorted_wrt (\<lambda>a b. metric cfg b \<le> metric cfg a)
     (aggregateStats rng cfg counts sizeCounts t tb)"
proof (cases "BySize cfg")
  case True
  obtain l where "aggregateStats rng cfg counts sizeCounts t tb =
      sort_Slice (\<lambda>a b. Size a > Size b) l"
    using aggregateStats_size_mode [OF True] by blast
  moreover have "sorted_wrt (\<lambda>a b. Size b \<le> Size a) (sort_Slice (\<lambda>a b. Size a > Size b) l)"
    by (rule sorted_sort_Slice)
  ultimately show ?thesis using True by (simp add: metric_def)
next
  case False
  obtain l where "aggregateStats rng cfg counts sizeCounts t tb =
      sort_Slice (\<lambda>a b. Count a > Count b) l"
    using aggregateStats_count_mode [OF False] by blast
  moreover have "sorted_wrt (\<lambda>a b. Count b \<le> Count a) (sort_Slice (\<lambda>a b. Count a > Count b) l)"
    by (rule sorted_sort_Slice)
  ultimately show ?thesis using False by (simp add: metric_def)
qed

text \<open>
  C8: the entries that \<^verbatim>\<open>aggregateStats\<close> returns are non-increasing in the chosen
  metric from first to last: their size when sorting by size, their count otherwise.
\<close>

theorem C8_entries_sorted:
  "sorted_wrt (\<lambda>a b. metric cfg b \<le> metric cfg a)
     (aggregateStats rng cfg counts sizeCounts totalFiles totalBytes)"
  by (rule sorted_metric)

subsection \<open>The sum of the entries\<close>

lemma sum_filter_split:
  "sum_list (map snd (filter P m)) + sum_list (map snd (filter (\<lambda>kv. \<not> P kv) m)) =
     sum_list (map snd m)"
  for m :: gomap
  by (induction m) auto

lemma sum_filter_nonneg:
  "list_all (\<lambda>kv. 0 \<le> snd kv) m \<Longrightarrow> 0 \<le> sum_list (map snd (filter P m))"
  for m :: gomap
  by (induction m) auto

lemma sum_list_perm:
  "mset m' = mset m \<Longrightarrow> sum_list (map snd m') = sum_list (map snd m)"
  for m :: gomap
  by (metis mset_map sum_mset_sum_list)

lemma list_all_perm: "mset m' = mset m \<Longrightarrow> list_all P m' = list_all P m"
  by (metis list_all_iff set_mset_mset)

lemma sum_sort_Slice:
  fixes f :: "'a \<Rightarrow> int"
  shows "sum_list (map f (sort_Slice lt xs)) = sum_list (map f xs)"
  by (metis mset_map mset_sort_Slice sum_mset_sum_list)

lemma sum_countEntry: "sum_list (map Count (map countEntry m)) = sum_list (map snd m)"
  by (induction m) (auto simp: countEntry_def)

lemma sum_sizeEntry: "sum_list (map Size (map sizeEntry m)) = sum_list (map snd m)"
  by (induction m) (auto simp: sizeEntry_def)

text \<open>Additions that wrap, one after the other, give the sum wrapped once.\<close>

lemma wrap64_id: "- (2 ^ 63) \<le> x \<Longrightarrow> x < 2 ^ 63 \<Longrightarrow> wrap64 x = x"
  by (simp add: wrap64_def)

lemma wrap64_add: "wrap64 (wrap64 a + b) = wrap64 (a + b)"
proof -
  define w where "w = wrap64 a"
  have 1: "w + b + 2 ^ 63 = (a + 2 ^ 63) mod 2 ^ 64 + b" by (simp add: w_def wrap64_def)
  have 2: "((a + 2 ^ 63) mod 2 ^ 64 + b) mod 2 ^ 64 = (a + 2 ^ 63 + b) mod 2 ^ 64"
    by (rule mod_add_left_eq)
  have 3: "a + 2 ^ 63 + b = a + b + 2 ^ 63" by simp
  have "wrap64 (w + b) = (w + b + 2 ^ 63) mod 2 ^ 64 - 2 ^ 63" by (simp add: wrap64_def)
  also have "\<dots> = (a + b + 2 ^ 63) mod 2 ^ 64 - 2 ^ 63" by (simp only: 1 2 3)
  also have "\<dots> = wrap64 (a + b)" by (simp add: wrap64_def)
  finally show ?thesis by (simp only: w_def)
qed

lemma foldl_wrap64:
  "foldl (\<lambda>other v. wrap64 (other + v)) (wrap64 a) vs = wrap64 (a + sum_list vs)"
proof (induction vs arbitrary: a)
  case Nil
  then show ?case by simp
next
  case (Cons v vs)
  show ?case using Cons [of "a + v"] by (simp add: wrap64_add add.assoc)
qed

lemma otherSum_wrap:
  "otherSum cfg t m = wrap64 (sum_list (map snd (filter (\<lambda>kv. collapses cfg (snd kv) t) m)))"
proof -
  have "wrap64 0 = 0" by (simp add: wrap64_def)
  then show ?thesis
    using foldl_wrap64 [of 0 "map snd (filter (\<lambda>kv. collapses cfg (snd kv) t) m)"]
    by (simp add: otherSum_def)
qed

lemma otherSum_perm:
  assumes "mset m' = mset m"
  shows "otherSum cfg t m' = otherSum cfg t m"
proof -
  have "mset (filter (\<lambda>kv. collapses cfg (snd kv) t) m') =
        mset (filter (\<lambda>kv. collapses cfg (snd kv) t) m)"
    using assms by simp
  from sum_list_perm [OF this] show ?thesis unfolding otherSum_wrap by simp
qed

lemma otherSum_exact:
  assumes "list_all (\<lambda>kv. 0 \<le> snd kv) m" and "sum_list (map snd m) < 2 ^ 63"
  shows "otherSum cfg t m = sum_list (map snd (filter (\<lambda>kv. collapses cfg (snd kv) t) m))"
proof -
  let ?o = "sum_list (map snd (filter (\<lambda>kv. collapses cfg (snd kv) t) m))"
  have 0: "0 \<le> ?o" by (rule sum_filter_nonneg [OF assms(1)])
  have "0 \<le> sum_list (map snd (filter (\<lambda>kv. \<not> collapses cfg (snd kv) t) m))"
    by (rule sum_filter_nonneg [OF assms(1)])
  then have "?o \<le> sum_list (map snd m)"
    using sum_filter_split [of "\<lambda>kv. collapses cfg (snd kv) t" m] by simp
  then have "?o < 2 ^ 63" using assms(2) by simp
  then show ?thesis unfolding otherSum_wrap using 0 by (intro wrap64_id) simp_all
qed

lemma count_mode_sum:
  assumes "\<not> BySize cfg" and "list_all (\<lambda>kv. 0 \<le> snd kv) (rng counts)"
    and "sum_list (map snd (rng counts)) < 2 ^ 63"
  shows "sum_list (map Count (aggregateStats rng cfg counts sizeCounts t tb)) =
           sum_list (map snd (rng counts))"
proof -
  define other where "other = otherSum cfg t (rng counts)"
  define kept where
    "kept = map countEntry (filter (\<lambda>kv. \<not> collapses cfg (snd kv) t) (rng counts))"
  define extra where
    "extra = (if 0 < other then [\<lparr>Ext = ''other'', Count = other, Size = 0\<rparr>] else [])"
  have agg: "aggregateStats rng cfg counts sizeCounts t tb =
      sort_Slice (\<lambda>a b. Count a > Count b) (kept @ extra)"
    unfolding aggregateStats_count_mode [OF assms(1)] other_def kept_def extra_def ..
  have o: "other = sum_list (map snd (filter (\<lambda>kv. collapses cfg (snd kv) t) (rng counts)))"
    unfolding other_def by (rule otherSum_exact [OF assms(2,3)])
  have "0 \<le> other" unfolding o by (rule sum_filter_nonneg [OF assms(2)])
  then have e: "sum_list (map Count extra) = other" by (simp add: extra_def)
  have k: "sum_list (map Count kept) =
      sum_list (map snd (filter (\<lambda>kv. \<not> collapses cfg (snd kv) t) (rng counts)))"
    unfolding kept_def by (rule sum_countEntry)
  have "sum_list (map Count (aggregateStats rng cfg counts sizeCounts t tb)) =
      sum_list (map Count kept) + sum_list (map Count extra)"
    unfolding agg sum_sort_Slice by simp
  then show ?thesis
    unfolding e k o
    using sum_filter_split [of "\<lambda>kv. collapses cfg (snd kv) t" "rng counts"] by simp
qed

lemma size_mode_sum:
  assumes "BySize cfg" and "list_all (\<lambda>kv. 0 \<le> snd kv) (rng sizeCounts)"
    and "sum_list (map snd (rng sizeCounts)) < 2 ^ 63"
  shows "sum_list (map Size (aggregateStats rng cfg counts sizeCounts t tb)) =
           sum_list (map snd (rng sizeCounts))"
proof -
  define other where "other = otherSum cfg tb (rng sizeCounts)"
  define kept where
    "kept = map sizeEntry (filter (\<lambda>kv. \<not> collapses cfg (snd kv) tb) (rng sizeCounts))"
  define extra where
    "extra = (if 0 < other then [\<lparr>Ext = ''other'', Count = 0, Size = other\<rparr>] else [])"
  have agg: "aggregateStats rng cfg counts sizeCounts t tb =
      sort_Slice (\<lambda>a b. Size a > Size b) (kept @ extra)"
    unfolding aggregateStats_size_mode [OF assms(1)] other_def kept_def extra_def ..
  have o: "other = sum_list (map snd (filter (\<lambda>kv. collapses cfg (snd kv) tb) (rng sizeCounts)))"
    unfolding other_def by (rule otherSum_exact [OF assms(2,3)])
  have "0 \<le> other" unfolding o by (rule sum_filter_nonneg [OF assms(2)])
  then have e: "sum_list (map Size extra) = other" by (simp add: extra_def)
  have k: "sum_list (map Size kept) =
      sum_list (map snd (filter (\<lambda>kv. \<not> collapses cfg (snd kv) tb) (rng sizeCounts)))"
    unfolding kept_def by (rule sum_sizeEntry)
  have "sum_list (map Size (aggregateStats rng cfg counts sizeCounts t tb)) =
      sum_list (map Size kept) + sum_list (map Size extra)"
    unfolding agg sum_sort_Slice by simp
  then show ?thesis
    unfolding e k o
    using sum_filter_split [of "\<lambda>kv. collapses cfg (snd kv) tb" "rng sizeCounts"] by simp
qed

text \<open>
  C2, as stated for every accumulator input, fails where the byte sizes leave the range
  of \<^verbatim>\<open>int64\<close>. Two files of \<open>2^62\<close> bytes each, one \<^verbatim>\<open>.a\<close> and one \<^verbatim>\<open>.b\<close>, give a total
  byte size that wraps to \<open>-2^63\<close>. In size mode each key has the share \<open>-0.5\<close>, which is
  below 0.01, so both are added to \<^verbatim>\<open>other\<close>, which wraps to \<open>-2^63\<close> as well; as that is
  not above 0 no entry is appended: \<^verbatim>\<open>aggregateStats\<close> returns no entry at all, and the
  sizes of no entries sum to 0, not to the total byte size.
\<close>

theorem C2_int64_wrap_counterexample:
  "wrap64 (2 ^ 62 + 2 ^ 62) = - (2 ^ 63) \<and>
   aggregateStats id (defaultConfig\<lparr>BySize := True\<rparr>) [(''a'', 1), (''b'', 1)]
     [(''a'', 2 ^ 62), (''b'', 2 ^ 62)] 2 (- (2 ^ 63)) = [] \<and>
   sum_list (map Size (aggregateStats id (defaultConfig\<lparr>BySize := True\<rparr>) [(''a'', 1), (''b'', 1)]
     [(''a'', 2 ^ 62), (''b'', 2 ^ 62)] 2 (- (2 ^ 63)))) \<noteq> - (2 ^ 63)"
  by code_simp

text \<open>
  C2, amended: for every accumulator input in which the map of the chosen metric (the
  counts in count mode, the cumulative sizes in size mode) has no negative value and its
  values sum to the grand total of that metric, that total below \<open>2^63\<close>, and whatever the
  order in which the map is ranged over: in count mode the counts of the entries that
  \<^verbatim>\<open>aggregateStats\<close> returns, \<^verbatim>\<open>other\<close> included, sum to the total file count, and in size
  mode their sizes sum to the total byte size. Nothing is asked of the map and of the
  total of the other metric.
\<close>

theorem C2_entries_sum_to_total:
  assumes "mset (rng (chosenMap cfg counts sizeCounts)) = mset (chosenMap cfg counts sizeCounts)"
    and "list_all (\<lambda>kv. 0 \<le> snd kv) (chosenMap cfg counts sizeCounts)"
    and "sum_list (map snd (chosenMap cfg counts sizeCounts)) =
           chosenTotal cfg totalFiles totalBytes"
    and "chosenTotal cfg totalFiles totalBytes < 2 ^ 63"
  shows "if BySize cfg
         then sum_list (map Size (aggregateStats rng cfg counts sizeCounts totalFiles totalBytes))
                = totalBytes
         else sum_list (map Count (aggregateStats rng cfg counts sizeCounts totalFiles totalBytes))
                = totalFiles"
proof (cases "BySize cfg")
  case True
  have p: "mset (rng sizeCounts) = mset sizeCounts"
    using assms(1) True by (simp add: chosenMap_def)
  have s: "sum_list (map snd (rng sizeCounts)) = totalBytes"
    using assms(3) True by (simp add: sum_list_perm [OF p] chosenMap_def chosenTotal_def)
  have "list_all (\<lambda>kv. 0 \<le> snd kv) (rng sizeCounts)"
    using assms(2) True by (simp add: list_all_perm [OF p] chosenMap_def)
  moreover have "sum_list (map snd (rng sizeCounts)) < 2 ^ 63"
    using assms(4) True by (simp add: s chosenTotal_def)
  ultimately show ?thesis
    using size_mode_sum [where rng = rng and sizeCounts = sizeCounts, OF True] True s by simp
next
  case False
  have p: "mset (rng counts) = mset counts"
    using assms(1) False by (simp add: chosenMap_def)
  have s: "sum_list (map snd (rng counts)) = totalFiles"
    using assms(3) False by (simp add: sum_list_perm [OF p] chosenMap_def chosenTotal_def)
  have "list_all (\<lambda>kv. 0 \<le> snd kv) (rng counts)"
    using assms(2) False by (simp add: list_all_perm [OF p] chosenMap_def)
  moreover have "sum_list (map snd (rng counts)) < 2 ^ 63"
    using assms(4) False by (simp add: s chosenTotal_def)
  ultimately show ?thesis
    using count_mode_sum [where rng = rng and counts = counts, OF False] False s by simp
qed

theorem C2_entries_sum_to_total_witness:
  "sum_list (map Count (aggregateStats rev defaultConfig
      [(''go'', 150), (''md'', 1), (''txt'', 49)] [(''go'', 2 ^ 62), (''md'', - 7)]
      200 3)) = 200 \<and>
   aggregateStats rev defaultConfig
      [(''go'', 150), (''md'', 1), (''txt'', 49)] [(''go'', 2 ^ 62), (''md'', - 7)]
      200 3 =
     [\<lparr>Ext = ''go'', Count = 150, Size = 0\<rparr>, \<lparr>Ext = ''txt'', Count = 49, Size = 0\<rparr>,
      \<lparr>Ext = ''other'', Count = 1, Size = 0\<rparr>]"
proof -
  have "sum_list (map Count (aggregateStats rev defaultConfig
      [(''go'', 150), (''md'', 1), (''txt'', 49)] [(''go'', 2 ^ 62), (''md'', - 7)]
      200 3)) = 200"
    using C2_entries_sum_to_total [of rev defaultConfig "[(''go'', 150), (''md'', 1), (''txt'', 49)]"
      "[(''go'', 2 ^ 62), (''md'', - 7)]" 200 3]
    by (simp add: defaultConfig_def chosenMap_def chosenTotal_def)
  moreover have "aggregateStats rev defaultConfig
      [(''go'', 150), (''md'', 1), (''txt'', 49)] [(''go'', 2 ^ 62), (''md'', - 7)]
      200 3 =
     [\<lparr>Ext = ''go'', Count = 150, Size = 0\<rparr>, \<lparr>Ext = ''txt'', Count = 49, Size = 0\<rparr>,
      \<lparr>Ext = ''other'', Count = 1, Size = 0\<rparr>]"
    by code_simp
  ultimately show ?thesis by simp
qed

subsection \<open>The entries as a multiset\<close>

lemma mset_count_mode:
  assumes "\<not> BySize cfg" and "mset (rng counts) = mset counts"
  shows "mset (aggregateStats rng cfg counts sizeCounts t tb) =
     image_mset countEntry (filter_mset (\<lambda>kv. \<not> collapses cfg (snd kv) t) (mset counts)) +
     (if 0 < otherSum cfg t counts
      then {#\<lparr>Ext = ''other'', Count = otherSum cfg t counts, Size = 0\<rparr>#}
      else {#})"
  unfolding aggregateStats_count_mode [OF assms(1)] mset_sort_Slice otherSum_perm [OF assms(2)]
  by (simp add: assms(2))

lemma mset_size_mode:
  assumes "BySize cfg" and "mset (rng sizeCounts) = mset sizeCounts"
  shows "mset (aggregateStats rng cfg counts sizeCounts t tb) =
     image_mset sizeEntry (filter_mset (\<lambda>kv. \<not> collapses cfg (snd kv) tb) (mset sizeCounts)) +
     (if 0 < otherSum cfg tb sizeCounts
      then {#\<lparr>Ext = ''other'', Count = 0, Size = otherSum cfg tb sizeCounts\<rparr>#}
      else {#})"
  unfolding aggregateStats_size_mode [OF assms(1)] mset_sort_Slice otherSum_perm [OF assms(2)]
  by (simp add: assms(2))

lemma mset_aggregateStats_perm:
  assumes "permutes rng1" and "permutes rng2"
  shows "mset (aggregateStats rng1 cfg counts sizeCounts t tb) =
         mset (aggregateStats rng2 cfg counts sizeCounts t tb)"
proof -
  have p: "mset (rng1 m) = mset m" "mset (rng2 m) = mset m" for m
    using assms by (simp_all add: permutes_def)
  show ?thesis
  proof (cases "BySize cfg")
    case True
    show ?thesis
      unfolding mset_size_mode [where rng = rng1, OF True p(1)]
                mset_size_mode [where rng = rng2, OF True p(2)] ..
  next
    case False
    show ?thesis
      unfolding mset_count_mode [where rng = rng1, OF False p(1)]
                mset_count_mode [where rng = rng2, OF False p(2)] ..
  qed
qed

section \<open>Two runs over the same tree\<close>

lemma permutes_id_rev: "permutes id" "permutes rev"
  by (simp_all add: permutes_def)

text \<open>
  C4, as stated, fails: the order in which a \<^verbatim>\<open>range\<close> yields the entries of a map is not
  fixed, and the sort leaves entries with equal counts in the order the loop met them.
  On a directory with one \<^verbatim>\<open>.go\<close> and one \<^verbatim>\<open>.txt\<close> file, two runs that range over the map
  in opposite orders print the two lines in opposite orders.
\<close>

theorem C4_tie_order_counterexample:
  "stdout (main_go id (\<lambda>p. Inr (DirEntry ''.'' [FileEntry ''a.go'' (Inr 10),
              FileEntry ''b.txt'' (Inr 20)] None)) [''dstat'', ''--nobar'']) =
     [''go            50%'', ''txt           50%''] \<and>
   stdout (main_go rev (\<lambda>p. Inr (DirEntry ''.'' [FileEntry ''a.go'' (Inr 10),
              FileEntry ''b.txt'' (Inr 20)] None)) [''dstat'', ''--nobar'']) =
     [''txt           50%'', ''go            50%''] \<and>
   main_go id (\<lambda>p. Inr (DirEntry ''.'' [FileEntry ''a.go'' (Inr 10),
              FileEntry ''b.txt'' (Inr 20)] None)) [''dstat'', ''--nobar''] \<noteq>
   main_go rev (\<lambda>p. Inr (DirEntry ''.'' [FileEntry ''a.go'' (Inr 10),
              FileEntry ''b.txt'' (Inr 20)] None)) [''dstat'', ''--nobar'']"
  by code_simp

text \<open>
  C4, amended: two runs over the same tree with the same configuration, whatever the
  orders in which they range over the maps, aggregate the same entries (as a multiset,
  each list sorted by the chosen metric); when no two entries have the same value of
  the chosen metric the two lists are equal and the two runs print the same output.
\<close>

theorem C4_runs_agree_up_to_ties:
  assumes "permutes rng1" and "permutes rng2"
    and "parseArgs args = Parsed cfg" and "walkDir fs cfg = (r, a)"
  shows "mset (aggregateStats rng1 cfg (accCounts a) (accSizeCounts a) (accTotal a) (accTotalBytes a)) =
         mset (aggregateStats rng2 cfg (accCounts a) (accSizeCounts a) (accTotal a) (accTotalBytes a)) \<and>
         (distinct (map (metric cfg)
            (aggregateStats rng1 cfg (accCounts a) (accSizeCounts a) (accTotal a) (accTotalBytes a))) \<longrightarrow>
          aggregateStats rng1 cfg (accCounts a) (accSizeCounts a) (accTotal a) (accTotalBytes a) =
          aggregateStats rng2 cfg (accCounts a) (accSizeCounts a) (accTotal a) (accTotalBytes a) \<and>
          main_go rng1 fs args = main_go rng2 fs args)"
proof -
  let ?s1 = "aggregateStats rng1 cfg (accCounts a) (accSizeCounts a) (accTotal a) (accTotalBytes a)"
  let ?s2 = "aggregateStats rng2 cfg (accCounts a) (accSizeCounts a) (accTotal a) (accTotalBytes a)"
  have m: "mset ?s1 = mset ?s2" by (rule mset_aggregateStats_perm [OF assms(1,2)])
  have eq: "?s1 = ?s2" if "distinct (map (metric cfg) ?s1)"
    by (rule sorted_desc_unique [OF m sorted_metric sorted_metric that])
  have "main_go rng1 fs args = main_go rng2 fs args" if "?s1 = ?s2"
  proof -
    have "present rng1 cfg a = present rng2 cfg a"
      by (simp only: present_def that)
    then show ?thesis by (simp add: main_go_def assms(3,4))
  qed
  then show ?thesis using m eq by blast
qed

theorem C4_runs_agree_up_to_ties_witness:
  "permutes id \<and> permutes rev \<and>
   main_go id (\<lambda>p. Inr (DirEntry ''.'' [FileEntry ''a.go'' (Inr 10), FileEntry ''b.go'' (Inr 5),
              FileEntry ''c.txt'' (Inr 20)] None)) [''dstat'', ''--nobar''] =
   main_go rev (\<lambda>p. Inr (DirEntry ''.'' [FileEntry ''a.go'' (Inr 10), FileEntry ''b.go'' (Inr 5),
              FileEntry ''c.txt'' (Inr 20)] None)) [''dstat'', ''--nobar'']"
proof -
  let ?fs = "\<lambda>p :: string. Inr (DirEntry ''.'' [FileEntry ''a.go'' (Inr 10), FileEntry ''b.go'' (Inr 5),
              FileEntry ''c.txt'' (Inr 20)] None) :: string + entry"
  let ?cfg = "defaultConfig\<lparr>NoBar := True\<rparr>"
  let ?a = "\<lparr>accCounts = [(''go'', 2), (''txt'', 1)], accSizeCounts = [(''go'', 15), (''txt'', 20)],
             accTotal = 3, accTotalBytes = 35, accLog = []\<rparr>"
  have 1: "parseArgs [''dstat'', ''--nobar''] = Parsed ?cfg" by code_simp
  have 2: "walkDir ?fs ?cfg = (Continue, ?a)" by code_simp
  have 3: "distinct (map (metric ?cfg)
      (aggregateStats id ?cfg (accCounts ?a) (accSizeCounts ?a) (accTotal ?a) (accTotalBytes ?a)))"
    by code_simp
  show ?thesis
    using C4_runs_agree_up_to_ties [OF permutes_id_rev 1 2] 3 permutes_id_rev by blast
qed

section \<open>Rounding to float64\<close>

lemma pow2_less_imp: "(2::rat) powi a < 2 powi b \<Longrightarrow> a < b"
  by (rule ccontr) (simp add: not_less power_int_increasing leD)

lemma pow2_pos: "0 < (2::rat) powi e"
  by simp

lemma bitlen_powi:
  assumes "0 < p"
  shows "(2::rat) powi (bitlen p - 1) \<le> of_int p" and "of_int p < (2::rat) powi bitlen p"
proof -
  have b: "1 \<le> bitlen p" using assms by (simp add: bitlen_alt_def)
  from bitlen_bounds [OF assms]
  have "(2::int) ^ nat (bitlen p - 1) \<le> p" and "p < (2::int) ^ nat (bitlen p)" by simp_all
  then have "of_int ((2::int) ^ nat (bitlen p - 1)) \<le> (of_int p :: rat)"
    and "(of_int p :: rat) < of_int ((2::int) ^ nat (bitlen p))"
    by (simp_all only: of_int_le_iff of_int_less_iff)
  then show "(2::rat) powi (bitlen p - 1) \<le> of_int p" and "of_int p < (2::rat) powi bitlen p"
    using b by (simp_all add: power_int_nonneg_exp)
qed

lemma ilog2_bounds:
  assumes "0 < x"
  shows "2 powi ilog2 x \<le> x" and "x < 2 powi (ilog2 x + 1)"
proof -
  obtain p q where pq: "quotient_of x = (p, q)" by (cases "quotient_of x")
  have q: "0 < q" by (rule quotient_of_denom_pos [OF pq])
  have x: "x = of_int p / of_int q" by (rule quotient_of_div [OF pq])
  have p: "0 < p" using assms q x by (simp add: zero_less_divide_iff)
  define d where "d = bitlen p - bitlen q"
  have up: "x < 2 powi (d + 1)"
  proof -
    have "of_int p / of_int q < (2::rat) powi bitlen p / 2 powi (bitlen q - 1)"
      using bitlen_powi(2) [OF p] bitlen_powi(1) [OF q] p
      by (intro frac_less) simp_all
    also have "\<dots> = 2 powi (d + 1)"
      by (simp add: d_def power_int_diff [symmetric] algebra_simps)
    finally show ?thesis using x by simp
  qed
  have lo: "2 powi (d - 1) \<le> x"
  proof -
    have "(2::rat) powi (bitlen p - 1) / 2 powi bitlen q \<le> of_int p / of_int q"
      using bitlen_powi(1) [OF p] bitlen_powi(2) [OF q] p q
      by (intro frac_le) simp_all
    moreover have "(2::rat) powi (bitlen p - 1) / 2 powi bitlen q = 2 powi (d - 1)"
      by (simp add: d_def power_int_diff [symmetric] algebra_simps)
    ultimately show ?thesis using x by simp
  qed
  have il: "ilog2 x = (if 2 powi d \<le> x then d else d - 1)"
    by (simp add: ilog2_def pq d_def Let_def)
  show "2 powi ilog2 x \<le> x" using lo by (simp add: il)
  show "x < 2 powi (ilog2 x + 1)" using up by (simp add: il not_le)
qed

lemma ilog2_unique:
  assumes "0 < x" and "2 powi e \<le> x" and "x < 2 powi (e + 1)"
  shows "ilog2 x = e"
proof -
  have a: "(2::rat) powi ilog2 x < 2 powi (e + 1)"
    using ilog2_bounds(1) [OF assms(1)] assms(3) by simp
  have b: "(2::rat) powi e < 2 powi (ilog2 x + 1)"
    using ilog2_bounds(2) [OF assms(1)] assms(2) by simp
  show ?thesis using pow2_less_imp [OF a] pow2_less_imp [OF b] by simp
qed

lemma ilog2_mono:
  assumes "0 < x" and "x \<le> y"
  shows "ilog2 x \<le> ilog2 y"
proof -
  have "(2::rat) powi ilog2 x < 2 powi (ilog2 y + 1)"
    using ilog2_bounds(1) [OF assms(1)] ilog2_bounds(2) [of y] assms by simp
  from pow2_less_imp [OF this] show ?thesis by simp
qed

lemma round_half_even_of_int: "round_half_even (of_int n) = n"
  by (simp add: round_half_even_def)

lemma round_half_even_mono: "x \<le> y \<Longrightarrow> round_half_even x \<le> round_half_even y"
proof -
  assume xy: "x \<le> y"
  have f: "\<lfloor>x\<rfloor> \<le> \<lfloor>y\<rfloor>" using xy by (rule floor_mono)
  have bx: "round_half_even x \<le> \<lfloor>x\<rfloor> + 1" and by': "\<lfloor>y\<rfloor> \<le> round_half_even y"
    by (simp_all add: round_half_even_def Let_def)
  show ?thesis
  proof (cases "\<lfloor>x\<rfloor> = \<lfloor>y\<rfloor>")
    case False
    then show ?thesis using f bx by' by linarith
  next
    case True
    then show ?thesis using xy by (auto simp: round_half_even_def Let_def)
  qed
qed

lemma float64_pos_eq:
  assumes "0 < x"
  shows "float64 x = of_int (round_half_even (x / 2 powi (ilog2 x - 52))) * 2 powi (ilog2 x - 52)"
  using assms by (simp add: float64_def Let_def)

lemma float64_binade:
  assumes "0 < x"
  shows "2 powi ilog2 x \<le> float64 x" and "float64 x \<le> 2 powi (ilog2 x + 1)"
proof -
  define e where "e = ilog2 x"
  define u :: rat where "u = 2 powi (e - 52)"
  have u: "0 < u" by (simp add: u_def)
  have e52: "(2::rat) powi e = 2 ^ 52 * u" and e53: "(2::rat) powi (e + 1) = 2 ^ 53 * u"
    by (simp_all add: u_def power_int_diff power_int_add)
  have "2 ^ 52 \<le> x / u" using ilog2_bounds(1) [OF assms] u by (simp add: e_def [symmetric] e52 pos_le_divide_eq)
  then have "round_half_even (of_int (2 ^ 52)) \<le> round_half_even (x / u)"
    by (intro round_half_even_mono) simp
  then have lo: "2 ^ 52 \<le> round_half_even (x / u)" by (simp only: round_half_even_of_int)
  have "x / u \<le> 2 ^ 53" using ilog2_bounds(2) [OF assms] u by (simp add: e_def [symmetric] e53 pos_divide_le_eq)
  then have "round_half_even (x / u) \<le> round_half_even (of_int (2 ^ 53))"
    by (intro round_half_even_mono) simp
  then have hi: "round_half_even (x / u) \<le> 2 ^ 53" by (simp only: round_half_even_of_int)
  have fx: "float64 x = of_int (round_half_even (x / u)) * u"
    by (simp add: float64_pos_eq [OF assms] u_def e_def)
  have "(2 ^ 52 :: rat) \<le> of_int (round_half_even (x / u))" using lo by (metis of_int_le_iff of_int_numeral of_int_power)
  then show "2 powi ilog2 x \<le> float64 x" using u by (simp add: fx e_def [symmetric] e52)
  have "(of_int (round_half_even (x / u)) :: rat) \<le> 2 ^ 53" using hi by (metis of_int_le_iff of_int_numeral of_int_power)
  then show "float64 x \<le> 2 powi (ilog2 x + 1)" using u by (simp add: fx e_def [symmetric] e53)
qed

lemma float64_nonneg: "0 \<le> x \<Longrightarrow> 0 \<le> float64 x"
proof (cases "x = 0")
  case True then show ?thesis by (simp add: float64_def)
next
  case False
  assume "0 \<le> x"
  then have "0 < x" using False by simp
  from float64_binade(1) [OF this] show ?thesis
    by (meson less_eq_rat_def order_trans pow2_pos)
qed

lemma float64_mono:
  assumes "0 \<le> x" and "x \<le> y"
  shows "float64 x \<le> float64 y"
proof (cases "x = 0")
  case True
  then show ?thesis using float64_nonneg [of y] assms by (simp add: float64_def)
next
  case False
  then have x: "0 < x" and y: "0 < y" using assms by simp_all
  have le: "ilog2 x \<le> ilog2 y" by (rule ilog2_mono [OF x assms(2)])
  show ?thesis
  proof (cases "ilog2 x = ilog2 y")
    case True
    have "x / 2 powi (ilog2 y - 52) \<le> y / 2 powi (ilog2 y - 52)"
      using assms(2) by (simp add: divide_right_mono)
    then have "round_half_even (x / 2 powi (ilog2 y - 52)) \<le> round_half_even (y / 2 powi (ilog2 y - 52))"
      by (rule round_half_even_mono)
    then show ?thesis
      by (simp add: float64_pos_eq [OF x] float64_pos_eq [OF y] True)
  next
    case False
    then have "ilog2 x + 1 \<le> ilog2 y" using le by simp
    then have "(2::rat) powi (ilog2 x + 1) \<le> 2 powi ilog2 y"
      by (intro power_int_increasing) simp_all
    then show ?thesis
      using float64_binade(2) [OF x] float64_binade(1) [OF y] by linarith
  qed
qed

lemma float64_exact:
  assumes "0 < n" and "n < 2 ^ 53"
  shows "float64 (of_int n * 2 powi j) = of_int n * 2 powi j"
proof -
  define e where "e = ilog2 (of_int n)"
  have n: "(0::rat) < of_int n" using assms(1) by simp
  have lo: "(2::rat) powi e \<le> of_int n" and hi: "(of_int n :: rat) < 2 powi (e + 1)"
    using ilog2_bounds [OF n] by (simp_all add: e_def)
  have "(2::rat) powi e < 2 powi 53"
  proof -
    have "(of_int n :: rat) < of_int (2 ^ 53)" using assms(2) by (simp only: of_int_less_iff)
    then show ?thesis using lo by simp
  qed
  from pow2_less_imp [OF this] have e52: "e \<le> 52" by simp
  define x :: rat where "x = of_int n * 2 powi j"
  have x: "0 < x" using n by (simp add: x_def)
  have "ilog2 x = e + j"
  proof (rule ilog2_unique [OF x])
    show "2 powi (e + j) \<le> x" using lo by (simp add: x_def power_int_add)
    show "x < 2 powi (e + j + 1)"
      using hi by (simp add: x_def power_int_add algebra_simps)
  qed
  then have fx: "float64 x = of_int (round_half_even (x / 2 powi (e + j - 52))) * 2 powi (e + j - 52)"
    by (simp add: float64_pos_eq [OF x])
  have "x / 2 powi (e + j - 52) = of_int n * 2 powi (52 - e)"
    by (simp add: x_def power_int_diff power_int_add field_simps)
  also have "\<dots> = of_int (n * 2 ^ nat (52 - e))"
    using e52 by (simp add: power_int_nonneg_exp)
  finally have q: "x / 2 powi (e + j - 52) = of_int (n * 2 ^ nat (52 - e))" .
  have "float64 x = of_int (n * 2 ^ nat (52 - e)) * 2 powi (e + j - 52)"
    unfolding fx q round_half_even_of_int ..
  also have "\<dots> = of_int n * 2 powi (52 - e) * 2 powi (e + j - 52)"
    using e52 by (simp add: power_int_nonneg_exp)
  also have "\<dots> = x"
    by (simp add: x_def power_int_diff power_int_add field_simps)
  finally show ?thesis by (simp add: x_def)
qed

lemma float64_of_int:
  assumes "0 \<le> n" and "n < 2 ^ 53"
  shows "float64 (of_int n) = of_int n"
proof (cases "n = 0")
  case True
  then show ?thesis by (simp add: float64_def)
next
  case False
  then have "0 < n" using assms(1) by simp
  from float64_exact [OF this assms(2), of 0] show ?thesis by simp
qed

lemma float64_hundredth: "float64 (1 / 100) = 5764607523034235 / 2 ^ 59"
  by code_simp

lemma float64_below_hundredth:
  "float64 (11529215046068469 / 2 ^ 60) = 5764607523034234 / 2 ^ 59"
  by code_simp

lemma below_threshold:
  assumes "0 \<le> v" and "0 < t" and "t < 2 ^ 53" and "100 * v < t"
  shows "float64 (of_int v / of_int t) < float64 (1 / 100)"
proof -
  have "1152921504606846976 * v \<le> 11529215046068469 * t"
    using assms by simp
  then have "(of_int (1152921504606846976 * v) :: rat) \<le> of_int (11529215046068469 * t)"
    by (simp only: of_int_le_iff)
  then have "(of_int v :: rat) / of_int t \<le> 11529215046068469 / 2 ^ 60"
    using assms(2) by (simp add: field_simps)
  moreover have "(0::rat) \<le> of_int v / of_int t" using assms by simp
  ultimately have "float64 (of_int v / of_int t) \<le> float64 (11529215046068469 / 2 ^ 60)"
    by (intro float64_mono)
  then show ?thesis
    unfolding float64_hundredth float64_below_hundredth by simp
qed

lemma above_threshold:
  assumes "0 < t" and "t \<le> 100 * v"
  shows "float64 (1 / 100) \<le> float64 (of_int v / of_int t)"
proof -
  have "(of_int t :: rat) \<le> of_int (100 * v)" using assms(2) by (simp only: of_int_le_iff)
  then have "(1::rat) / 100 \<le> of_int v / of_int t"
    using assms(1) by (simp add: field_simps)
  then show ?thesis by (intro float64_mono) simp_all
qed

lemma collapses_iff:
  assumes "0 \<le> v" and "v \<le> t" and "t < 2 ^ 53"
  shows "collapses cfg v t \<longleftrightarrow> \<not> Verbose cfg \<and> share v t < 1 / 100"
proof (cases "t = 0")
  case True
  then show ?thesis
    by (simp add: collapses_def share_def safeDivF_def float64_hundredth) (simp add: float64_def)
next
  case False
  then have t: "0 < t" using assms by simp
  have fv: "float64 (of_int v) = of_int v" and ft: "float64 (of_int t) = of_int t"
    using assms by (simp_all add: float64_of_int)
  have sd: "safeDivF (float64 (of_int v)) (float64 (of_int t)) = float64 (of_int v / of_int t)"
    using t by (simp add: fv ft safeDivF_def)
  have sh: "share v t < 1 / 100 \<longleftrightarrow> 100 * v < t"
  proof -
    have "share v t < 1 / 100 \<longleftrightarrow> (of_int (100 * v) :: rat) < of_int t"
      using t by (simp add: share_def field_simps)
    then show ?thesis by (simp only: of_int_less_iff)
  qed
  show ?thesis
  proof (cases "100 * v < t")
    case True
    then show ?thesis
      using below_threshold [OF assms(1) t assms(3) True] sh by (simp add: collapses_def sd)
  next
    case False
    then have "float64 (1 / 100) \<le> float64 (of_int v / of_int t)"
      by (intro above_threshold [OF t]) simp
    then show ?thesis using False sh by (simp add: collapses_def sd)
  qed
qed

section \<open>The collapsing law\<close>

lemma member_le_sum:
  "list_all (\<lambda>kv. 0 \<le> snd kv) m \<Longrightarrow> kv \<in> set m \<Longrightarrow> snd kv \<le> sum_list (map snd m)"
  for m :: gomap
proof (induction m)
  case Nil
  then show ?case by simp
next
  case (Cons a m)
  have "0 \<le> sum_list (map snd m)" using Cons.prems(1) sum_filter_nonneg [of m "\<lambda>kv. True"] by simp
  then show ?case using Cons by auto
qed

lemma filter_collapses:
  assumes "list_all (\<lambda>kv. 0 \<le> snd kv) m" and "sum_list (map snd m) = t" and "t < 2 ^ 53"
  shows "filter (\<lambda>kv. \<not> collapses cfg (snd kv) t) m = spec_own cfg m t"
    and "sum_list (map snd (filter (\<lambda>kv. collapses cfg (snd kv) t) m)) = spec_folded cfg m t"
proof -
  have c: "collapses cfg (snd kv) t \<longleftrightarrow> \<not> Verbose cfg \<and> share (snd kv) t < 1 / 100"
    if "kv \<in> set m" for kv
  proof (rule collapses_iff [OF _ _ assms(3)])
    show "0 \<le> snd kv" using assms(1) that by (simp add: list_all_iff)
    show "snd kv \<le> t" using member_le_sum [OF assms(1) that] assms(2) by simp
  qed
  show "filter (\<lambda>kv. \<not> collapses cfg (snd kv) t) m = spec_own cfg m t"
    unfolding spec_own_def by (rule filter_cong [OF refl]) (auto simp: c)
  have "filter (\<lambda>kv. collapses cfg (snd kv) t) m =
        filter (\<lambda>kv. \<not> Verbose cfg \<and> share (snd kv) t < 1 / 100) m"
    by (rule filter_cong [OF refl]) (simp add: c)
  then show "sum_list (map snd (filter (\<lambda>kv. collapses cfg (snd kv) t) m)) = spec_folded cfg m t"
    by (simp add: spec_folded_def)
qed

lemma collapse_spec:
  assumes "Verbose cfg \<or>
           (list_all (\<lambda>kv. 0 \<le> snd kv) m \<and> sum_list (map snd m) = t \<and> t < 2 ^ 53)"
  shows "filter (\<lambda>kv. \<not> collapses cfg (snd kv) t) m = spec_own cfg m t"
    and "otherSum cfg t m = spec_folded cfg m t"
proof -
  have "filter (\<lambda>kv. \<not> collapses cfg (snd kv) t) m = spec_own cfg m t \<and>
        otherSum cfg t m = spec_folded cfg m t"
  proof (cases "Verbose cfg")
    case True
    have "wrap64 0 = 0" by (simp add: wrap64_def)
    then show ?thesis
      using True by (simp add: collapses_def spec_own_def spec_folded_def otherSum_wrap)
  next
    case False
    then have h: "list_all (\<lambda>kv. 0 \<le> snd kv) m" "sum_list (map snd m) = t" "t < 2 ^ 53"
      using assms by simp_all
    have "sum_list (map snd m) < 2 ^ 63" using h(2,3) by simp
    from otherSum_exact [OF h(1) this, of cfg t] filter_collapses [OF h, of cfg]
    show ?thesis by simp
  qed
  then show "filter (\<lambda>kv. \<not> collapses cfg (snd kv) t) m = spec_own cfg m t"
    and "otherSum cfg t m = spec_folded cfg m t" by simp_all
qed

text \<open>
  C7, as stated for every run, fails at the far end of the range of \<^verbatim>\<open>int64\<close>: the share
  is computed in \<^verbatim>\<open>float64\<close>, and beyond \<open>2^53\<close> the conversion of the total rounds.
  With 400000000000000 bytes of \<^verbatim>\<open>a\<close> files in a total of 40000000000000004 bytes the
  share of \<^verbatim>\<open>a\<close> is below 1%, the total is rounded to 40000000000000000, the quotient is
  the double 0.01, and \<^verbatim>\<open>a\<close> is not folded into \<^verbatim>\<open>other\<close>.
\<close>

theorem C7_float_counterexample:
  "\<not> Verbose (defaultConfig\<lparr>BySize := True\<rparr>) \<and>
   share 400000000000000 40000000000000004 < 1 / 100 \<and>
   aggregateStats id (defaultConfig\<lparr>BySize := True\<rparr>) [(''a'', 1), (''b'', 1)]
     [(''a'', 400000000000000), (''b'', 39600000000000004)] 2 40000000000000004 =
     [\<lparr>Ext = ''b'', Count = 0, Size = 39600000000000004\<rparr>,
      \<lparr>Ext = ''a'', Count = 0, Size = 400000000000000\<rparr>]"
  by code_simp

text \<open>
  C7, amended. With verbose off, for every accumulator input in which the map of the
  chosen metric (the counts in count mode, the cumulative sizes in size mode) has no
  negative value and its values sum to the grand total of that metric, that total below
  \<open>2^53\<close>, and whatever the order in which the map is ranged over: the entries that
  \<^verbatim>\<open>aggregateStats\<close> returns are one entry of its own for every extension-key whose exact
  share is at least 1%, and, when the values of the keys whose exact share is below 1%
  sum to more than zero, one entry \<^verbatim>\<open>other\<close> with that sum; no key with a share below 1%
  has an entry of its own. With verbose on, for every accumulator input and every such
  order, the entries are one entry for every extension-key and nothing else. Nothing is
  asked of the map and of the total of the other metric.
\<close>

theorem C7_collapsing_law:
  assumes "mset (rng (chosenMap cfg counts sizeCounts)) = mset (chosenMap cfg counts sizeCounts)"
    and "Verbose cfg \<or>
         (list_all (\<lambda>kv. 0 \<le> snd kv) (chosenMap cfg counts sizeCounts) \<and>
          sum_list (map snd (chosenMap cfg counts sizeCounts)) =
            chosenTotal cfg totalFiles totalBytes \<and>
          chosenTotal cfg totalFiles totalBytes < 2 ^ 53)"
  shows "mset (aggregateStats rng cfg counts sizeCounts totalFiles totalBytes) =
     mset (map (ownEntry cfg)
       (spec_own cfg (chosenMap cfg counts sizeCounts) (chosenTotal cfg totalFiles totalBytes))) +
     (if 0 < spec_folded cfg (chosenMap cfg counts sizeCounts)
               (chosenTotal cfg totalFiles totalBytes)
      then {#otherEntry cfg (spec_folded cfg (chosenMap cfg counts sizeCounts)
               (chosenTotal cfg totalFiles totalBytes))#}
      else {#})"
proof (cases "BySize cfg")
  case True
  have p: "mset (rng sizeCounts) = mset sizeCounts"
    using assms(1) True by (simp add: chosenMap_def)
  have "Verbose cfg \<or>
      (list_all (\<lambda>kv. 0 \<le> snd kv) sizeCounts \<and> sum_list (map snd sizeCounts) = totalBytes \<and>
       totalBytes < 2 ^ 53)"
    using assms(2) True by (simp add: chosenMap_def chosenTotal_def)
  note f = collapse_spec [OF this]
  have k: "filter_mset (\<lambda>kv. \<not> collapses cfg (snd kv) totalBytes) (mset sizeCounts) =
      mset (spec_own cfg sizeCounts totalBytes)"
    unfolding f(1) [symmetric] by simp
  have e: "map (ownEntry cfg) l = map sizeEntry l" for l
    using True by (simp add: ownEntry_def sizeEntry_def)
  show ?thesis
    unfolding mset_size_mode [where rng = rng, OF True p] k f(2) e
    by (simp add: True chosenMap_def chosenTotal_def otherEntry_def)
next
  case False
  have p: "mset (rng counts) = mset counts"
    using assms(1) False by (simp add: chosenMap_def)
  have "Verbose cfg \<or>
      (list_all (\<lambda>kv. 0 \<le> snd kv) counts \<and> sum_list (map snd counts) = totalFiles \<and>
       totalFiles < 2 ^ 53)"
    using assms(2) False by (simp add: chosenMap_def chosenTotal_def)
  note f = collapse_spec [OF this]
  have k: "filter_mset (\<lambda>kv. \<not> collapses cfg (snd kv) totalFiles) (mset counts) =
      mset (spec_own cfg counts totalFiles)"
    unfolding f(1) [symmetric] by simp
  have e: "map (ownEntry cfg) l = map countEntry l" for l
    using False by (simp add: ownEntry_def countEntry_def)
  show ?thesis
    unfolding mset_count_mode [where rng = rng, OF False p] k f(2) e
    by (simp add: False chosenMap_def chosenTotal_def otherEntry_def)
qed

theorem C7_collapsing_law_witness:
  "mset (aggregateStats rev defaultConfig
      [(''go'', 150), (''md'', 1), (''txt'', 49)] [(''go'', 2 ^ 62), (''md'', - 7)]
      200 3) =
     {#\<lparr>Ext = ''go'', Count = 150, Size = 0\<rparr>, \<lparr>Ext = ''txt'', Count = 49, Size = 0\<rparr>,
       \<lparr>Ext = ''other'', Count = 1, Size = 0\<rparr>#}"
  using C7_collapsing_law [of rev defaultConfig "[(''go'', 150), (''md'', 1), (''txt'', 49)]"
      "[(''go'', 2 ^ 62), (''md'', - 7)]" 200 3]
  by (simp add: defaultConfig_def spec_own_def spec_folded_def share_def ownEntry_def
      otherEntry_def chosenMap_def chosenTotal_def)

section \<open>Printing\<close>

lemma decimal_digit: "n < 10 \<Longrightarrow> decimal n = [''0123456789'' ! n]"
  by (subst decimal.simps) simp

lemma decimal_two_digits:
  assumes "10 \<le> n" and "n < 100"
  shows "decimal n = [''0123456789'' ! (n div 10), ''0123456789'' ! (n mod 10)]"
proof -
  have "n div 10 < 10" using assms(2) by simp
  then have "decimal (n div 10) = [''0123456789'' ! (n div 10)]" by (rule decimal_digit)
  moreover have "decimal n = decimal (n div 10) @ [''0123456789'' ! (n mod 10)]"
    using assms(1) by (subst decimal.simps) simp
  ultimately show ?thesis by simp
qed

declare decimal.simps [simp del]

lemma fracDigits_two:
  assumes "n < 100"
  shows "fracDigits 2 n = [''0123456789'' ! (n div 10), ''0123456789'' ! (n mod 10)]"
proof (cases "n < 10")
  case True
  then show ?thesis by (simp add: fracDigits_def decimal_digit)
next
  case False
  then show ?thesis using assms by (simp add: fracDigits_def decimal_two_digits)
qed

lemma mod_div_digits: "h mod 100 div 10 = h div 10 mod 10" "h mod 100 mod 10 = h mod 10"
  for h :: nat
proof -
  have "h mod (10 * 10) = 10 * (h div 10 mod 10) + h mod 10" by (rule mod_mult2_eq)
  then have e: "h mod 100 = 10 * (h div 10 mod 10) + h mod 10" by simp
  show "h mod 100 div 10 = h div 10 mod 10" unfolding e by simp
  show "h mod 100 mod 10 = h mod 10" unfolding e by simp
qed

lemma fmt_f_two:
  assumes "0 \<le> x"
  shows "fmt_f 2 x = twoDecimals (nat (round_half_even (x * 100)))"
proof -
  define h where "h = nat (round_half_even (x * 100))"
  have "h mod 100 < 100" by simp
  then have "fracDigits 2 (h mod 100) =
      [''0123456789'' ! (h div 10 mod 10), ''0123456789'' ! (h mod 10)]"
    by (simp only: fracDigits_two mod_div_digits)
  moreover have "fmt_f 2 x = decimal (h div 100) @ ''.'' @ fracDigits 2 (h mod 100)"
    using assms by (simp add: fmt_f_def Let_def h_def abs_of_nonneg)
  ultimately show ?thesis by (simp add: twoDecimals_def h_def)
qed


section \<open>humanReadableSize\<close>

lemma spec_unit_cases:
  "2 ^ 40 \<le> b \<Longrightarrow> spec_unit b = (''TB'', 2 ^ 40)"
  "2 ^ 30 \<le> b \<Longrightarrow> b < 2 ^ 40 \<Longrightarrow> spec_unit b = (''GB'', 2 ^ 30)"
  "2 ^ 20 \<le> b \<Longrightarrow> b < 2 ^ 30 \<Longrightarrow> spec_unit b = (''MB'', 2 ^ 20)"
  "2 ^ 10 \<le> b \<Longrightarrow> b < 2 ^ 20 \<Longrightarrow> spec_unit b = (''KB'', 2 ^ 10)"
  by (simp_all add: spec_unit_def unitTable_def)

lemma unit_value_printed:
  assumes "0 \<le> b" and "0 < m"
  shows "fmt_f 2 (float64 (float64 (of_int b) / of_int m)) =
           twoDecimals (nat (round_half_even (float64 (float64 (of_int b) / of_int m) * 100)))"
proof (rule fmt_f_two)
  have "(0::rat) \<le> float64 (of_int b)" using assms(1) by (intro float64_nonneg) simp
  then have "(0::rat) \<le> float64 (of_int b) / of_int m" using assms(2) by simp
  then show "0 \<le> float64 (float64 (of_int b) / of_int m)" by (rule float64_nonneg)
qed

lemma unit_value_exact:
  assumes "0 < b" and "b < 2 ^ 53"
  shows "float64 (float64 (of_int b) / 2 ^ k) = of_int b / 2 ^ k"
proof -
  have "float64 (of_int b) = of_int b" using assms by (intro float64_of_int) simp_all
  moreover have "(of_int b :: rat) / 2 ^ k = of_int b * 2 powi (- int k)"
    by (simp add: power_int_minus field_simps)
  ultimately show ?thesis using float64_exact [OF assms, of "- int k"] by simp
qed

lemma humanReadableSize_unit:
  assumes "1024 \<le> b"
  shows "humanReadableSize b =
           fmt_f 2 (float64 (float64 (of_int b) / of_int (snd (spec_unit b)))) @ '' '' @
           fst (spec_unit b)"
proof -
  consider "2 ^ 40 \<le> b" | "2 ^ 30 \<le> b" "b < 2 ^ 40" | "2 ^ 20 \<le> b" "b < 2 ^ 30"
    | "2 ^ 10 \<le> b" "b < 2 ^ 20"
    using assms by fastforce
  then show ?thesis
  proof cases
    case 1
    then show ?thesis
      by (simp add: humanReadableSize_def TB_def GB_def MB_def KB_def spec_unit_cases(1))
  next
    case 2
    then show ?thesis
      by (simp add: humanReadableSize_def TB_def GB_def MB_def KB_def spec_unit_cases(2))
  next
    case 3
    then show ?thesis
      by (simp add: humanReadableSize_def TB_def GB_def MB_def KB_def spec_unit_cases(3))
  next
    case 4
    then show ?thesis
      by (simp add: humanReadableSize_def TB_def GB_def MB_def KB_def spec_unit_cases(4))
  qed
qed

lemma humanReadableSize_value_exact:
  assumes "1024 \<le> b" and "b < 2 ^ 53"
  shows "float64 (float64 (of_int b) / of_int (snd (spec_unit b))) =
           of_int b / of_int (snd (spec_unit b))"
proof -
  have b: "0 < b" using assms(1) by simp
  consider "2 ^ 40 \<le> b" | "2 ^ 30 \<le> b" "b < 2 ^ 40" | "2 ^ 20 \<le> b" "b < 2 ^ 30"
    | "2 ^ 10 \<le> b" "b < 2 ^ 20"
    using assms by fastforce
  then show ?thesis
  proof cases
    case 1
    then show ?thesis
      using unit_value_exact [OF b assms(2), of 40] by (simp add: spec_unit_cases(1))
  next
    case 2
    then show ?thesis
      using unit_value_exact [OF b assms(2), of 30] by (simp add: spec_unit_cases(2))
  next
    case 3
    then show ?thesis
      using unit_value_exact [OF b assms(2), of 20] by (simp add: spec_unit_cases(3))
  next
    case 4
    then show ?thesis
      using unit_value_exact [OF b assms(2), of 10] by (simp add: spec_unit_cases(4))
  qed
qed

lemma spec_unit_pos: "1024 \<le> b \<Longrightarrow> 0 < snd (spec_unit b)"
  by (cases "2 ^ 40 \<le> b"; cases "2 ^ 30 \<le> b"; cases "2 ^ 20 \<le> b")
     (simp_all add: spec_unit_def unitTable_def)

text \<open>
  C9: for a byte count \<open>b \<ge> 0\<close>, \<^verbatim>\<open>humanReadableSize\<close> prints the integer and \<^verbatim>\<open>B\<close> when
  \<open>b < 1024\<close>; otherwise it takes the largest unit of KB, MB, GB, TB whose multiplier
  \<open>b\<close> reaches, and prints \<open>b\<close> divided by that multiplier (a \<^verbatim>\<open>float64\<close>, the exact
  quotient when \<open>b < 2^53\<close>) rounded to hundredths, with two decimals, a space and the
  unit. So 2048 bytes print as \<^verbatim>\<open>2.00 KB\<close>.
\<close>

theorem C9_humanReadableSize:
  assumes "0 \<le> b"
  shows "humanReadableSize b =
           (if b < 1024 then decimal (nat b) @ '' B''
            else twoDecimals (nat (round_half_even
                   (float64 (float64 (of_int b) / of_int (snd (spec_unit b))) * 100))) @
                 '' '' @ fst (spec_unit b)) \<and>
         (if 1024 \<le> b \<and> b < 2 ^ 53
          then float64 (float64 (of_int b) / of_int (snd (spec_unit b))) =
                 of_int b / of_int (snd (spec_unit b))
          else True)"
proof (cases "b < 1024")
  case True
  then show ?thesis
    using assms by (simp add: humanReadableSize_def TB_def GB_def MB_def KB_def fmt_d_def)
next
  case False
  then have b: "1024 \<le> b" by simp
  show ?thesis
    using False humanReadableSize_unit [OF b] unit_value_printed [OF assms spec_unit_pos [OF b]]
      humanReadableSize_value_exact [OF b]
    by simp
qed

theorem C9_humanReadableSize_witness:
  "humanReadableSize 2048 = ''2.00 KB'' \<and> humanReadableSize 1023 = ''1023 B'' \<and>
   spec_unit 2048 = (''KB'', 1024)"
proof -
  have u: "spec_unit 2048 = (''KB'', 1024)" by code_simp
  have t: "twoDecimals (nat (round_half_even (float64 (float64 (of_int 2048) / of_int 1024) * 100))) =
      ''2.00''" by code_simp
  have d: "decimal (nat 1023) = ''1023''" by code_simp
  show ?thesis
    using C9_humanReadableSize [of 2048] C9_humanReadableSize [of 1023] u t d by simp
qed

section \<open>The line of an entry\<close>






















text \<open>
  The two roundings differ at a half: 23 files of 40 are exactly 57.5%, which rounds to
  58 a half up; in \<^verbatim>\<open>float64\<close> the share 0.575 times 100 is just below 57.5, and the line
  has \<^verbatim>\<open>57.00%\<close>.
\<close>

lemma human_rounding_at_half:
  "spec_round (spec_percent (defaultConfig\<lparr>Human := True\<rparr>)
     \<lparr>Ext = ''go'', Count = 23, Size = 0\<rparr> 40 0) = 58 \<and>
   entryPercent (defaultConfig\<lparr>Human := True\<rparr>) \<lparr>Ext = ''go'', Count = 23, Size = 0\<rparr> 40 0 = 57 \<and>
   entryLine (defaultConfig\<lparr>Human := True\<rparr>) \<lparr>Ext = ''go'', Count = 23, Size = 0\<rparr> 40 0 =
     Some (padRight 10 ''go'' @ '' |'' @ concat (replicate 22 block) @ replicate 18 CHR ''-'' @
           ''| 57.00%'')"
  by code_simp

text \<open>The width of the key counts runes: a key of one rune of two bytes gets 9 spaces.\<close>

lemma padRight_runes:
  "padRight 10 [CHR 0xC3, CHR 0xA9] = [CHR 0xC3, CHR 0xA9] @ replicate 9 CHR '' ''"
  by code_simp




end
